theory Spec2Isabelle
  imports Main "HOL-Library.Sublist" "HOL-Library.AList"
begin

section \<open>Buffers, errors and the runtime\<close>

text \<open>
  A Node \<open>Buffer\<close> is a list of bytes; \<^typ>\<open>char\<close> is HOL's eight-bit type, read as a
  number by \<open>of_char\<close>. JavaScript numbers that hold byte counts and offsets are
  integers here. Text is kept as its UTF-8 bytes.
\<close>

type_synonym buffer = "char list"

text \<open>
  Every \<open>throw new Error(msg)\<close> of the source is \<open>Error msg\<close>; the other constructors
  are the errors the runtime itself raises (reading a property of \<open>null\<close>, malformed
  JSON, a value that does not fit a 32-bit field).
\<close>

datatype error = Error string | TypeError | SyntaxError | RangeError

text \<open>
  \<open>Buffer.prototype.slice(start, end)\<close>: a negative index counts from the end, and
  both indices are clamped to the buffer.
\<close>

definition slice :: "buffer \<Rightarrow> int \<Rightarrow> int \<Rightarrow> buffer" where
  "slice buf start fin =
     (let len = int (length buf);
          s = (if start < 0 then max (len + start) 0 else min start len);
          e = (if fin < 0 then max (len + fin) 0 else min fin len)
      in take (nat (e - s)) (drop (nat s) buf))"

text \<open>
  The four bytes at an offset as a little-endian number; \<open>readUInt32LE\<close> and
  \<open>writeUInt32LE\<close> throw a \<open>RangeError\<close> outside the buffer or the 32-bit range.
\<close>

definition uint32le :: "buffer \<Rightarrow> nat \<Rightarrow> nat" where
  "uint32le buf off =
     of_char (buf ! off) + 256 * of_char (buf ! (off + 1))
       + 65536 * of_char (buf ! (off + 2)) + 16777216 * of_char (buf ! (off + 3))"

definition readUInt32LE :: "buffer \<Rightarrow> nat \<Rightarrow> error + nat" where
  "readUInt32LE buf off =
     (if off + 4 \<le> length buf then Inr (uint32le buf off) else Inl RangeError)"

definition writeUInt32LE :: "buffer \<Rightarrow> nat \<Rightarrow> nat \<Rightarrow> error + buffer" where
  "writeUInt32LE buf v off =
     (if v < 4294967296 \<and> off + 4 \<le> length buf
      then Inr (buf[off := char_of v, off + 1 := char_of (v div 256),
                    off + 2 := char_of (v div 65536), off + 3 := char_of (v div 16777216)])
      else Inl RangeError)"


section \<open>Patch Engine\<close>

text \<open>
  \<open>String.prototype.indexOf\<close>, \<open>includes\<close> and \<open>replace\<close> with a string pattern:
  \<open>replace\<close> rewrites the first occurrence only and returns the text unchanged when
  there is none. A \<open>$\<close> in the replacement would be read as a substitution pattern;
  the replacements of this program hold none (lemma \<open>replacements_literal\<close>).
\<close>

fun indexOf :: "string \<Rightarrow> string \<Rightarrow> nat option" where
  "indexOf [] p = (if p = [] then Some 0 else None)"
| "indexOf (c # cs) p =
     (if prefix p (c # cs) then Some 0 else map_option Suc (indexOf cs p))"

definition str_includes :: "string \<Rightarrow> string \<Rightarrow> bool" where
  "str_includes s p = (indexOf s p \<noteq> None)"

definition replace :: "string \<Rightarrow> string \<Rightarrow> string \<Rightarrow> string" where
  "replace s p r =
     (case indexOf s p of
        None \<Rightarrow> s
      | Some i \<Rightarrow> take i s @ r @ drop (i + length p) s)"

text \<open>\<open>JSON.stringify\<close> of a string: quoted, with the escapes of \<open>QuoteJSONString\<close>.\<close>

definition hex_digit :: "nat \<Rightarrow> char" where
  "hex_digit n = (''0123456789abcdef'') ! (n mod 16)"

definition quote_char :: "char \<Rightarrow> string" where
  "quote_char c =
     (if c = CHR 0x22 then [CHR 0x5C, CHR 0x22]
      else if c = CHR 0x5C then [CHR 0x5C, CHR 0x5C]
      else if c = CHR 0x08 then [CHR 0x5C, CHR ''b'']
      else if c = CHR 0x09 then [CHR 0x5C, CHR ''t'']
      else if c = CHR 0x0A then [CHR 0x5C, CHR ''n'']
      else if c = CHR 0x0C then [CHR 0x5C, CHR ''f'']
      else if c = CHR 0x0D then [CHR 0x5C, CHR ''r'']
      else if (of_char c :: nat) < 32
        then [CHR 0x5C, CHR ''u'', CHR ''0'', CHR ''0'',
              hex_digit (of_char c div 16), hex_digit (of_char c)]
      else [c])"

definition quote_string :: "string \<Rightarrow> string" where
  "quote_string s = [CHR 0x22] @ concat (map quote_char s) @ [CHR 0x22]"

definition PATCH_MARKER :: string where
  "PATCH_MARKER = ''/*codex-darcula-patch*/''"


definition INTEGRITY_BLOCK_SIZE :: nat where
  "INTEGRITY_BLOCK_SIZE = 4 * 1024 * 1024"

definition DARCULA_CSS :: string where
  \<open>DARCULA_CSS = PATCH_MARKER @
     ''\<newline>:root,\<newline>html,\<newline>body,\<newline>#root {\<newline>  color-scheme: dark !important;\<newline>  background: #2b2b2b !important;\<newline>  color: #a9b7c6 !important;\<newline>}\<newline>\<newline>'' @
     ''* {\<newline>  border-color: #4e5254 !important;\<newline>}\<newline>\<newline>'' @
     ''main,\<newline>section,\<newline>article,\<newline>aside,\<newline>header,\<newline>footer,\<newline>nav,\<newline>div[data-panel],\<newline>[data-theme="dark"] {\<newline>  background-color: #2b2b2b !important;\<newline>  color: #a9b7c6 !important;\<newline>}\<newline>\<newline>'' @
     ''aside,\<newline>nav,\<newline>[data-sidebar],\<newline>[role="complementary"] {\<newline>  background-color: #3c3f41 !important;\<newline>}\<newline>\<newline>'' @
     ''button,\<newline>input,\<newline>textarea,\<newline>select,\<newline>[role="button"] {\<newline>  background-color: #3c3f41 !important;\<newline>  color: #a9b7c6 !important;\<newline>  border-color: #5c6164 !important;\<newline>}\<newline>\<newline>'' @
     ''button:hover,\<newline>[role="button"]:hover {\<newline>  background-color: #4b5052 !important;\<newline>}\<newline>\<newline>'' @
     ''a {\<newline>  color: #589df6 !important;\<newline>}\<newline>\<newline>'' @
     ''a:hover {\<newline>  color: #73b1ff !important;\<newline>}\<newline>\<newline>'' @
     ''pre,\<newline>code {\<newline>  background-color: #313335 !important;\<newline>  color: #a9b7c6 !important;\<newline>}\<newline>\<newline>'' @
     ''::selection {\<newline>  background: #214283 !important;\<newline>  color: #dfe6ee !important;\<newline>}\<newline>\<newline>'' @
     ''::-webkit-scrollbar-thumb {\<newline>  background: #5c6164 !important;\<newline>  border-radius: 8px !important;\<newline>}\<newline>\<newline>'' @
     ''::-webkit-scrollbar-track {\<newline>  background: #2b2b2b !important;\<newline>}\<newline>''\<close>

definition themeSourceAnchor :: string where
  \<open>themeSourceAnchor =
     ''function dB(t){t==="light"||t==="dark"?U.nativeTheme.themeSource=t:U.nativeTheme.themeSource="system"}''\<close>

definition helperCode :: string where
  \<open>helperCode =
     themeSourceAnchor @ ''const cdpDarculaCss='' @ quote_string DARCULA_CSS @ '';'' @
     ''function cdpApplyDarcula(win){if(!win||win.isDestroyed())return;const apply=()=>{if(win.isDestroyed())return;try{const wc=win.webContents;if(!wc||wc.isDestroyed())return;wc.insertCSS(cdpDarculaCss).catch(()=>{});}catch{}};win.webContents.once("did-finish-load",apply);if(!win.webContents.isLoadingMainFrame())apply();}''\<close>

definition windowCreationAnchor :: string where
  "windowCreationAnchor =
     ''this.installNativeContextMenu(y),l&&this.installLiquidGlass(y,u),!U.app.isPackaged''"

definition windowCreationHook :: string where
  "windowCreationHook =
     ''this.installNativeContextMenu(y),l&&this.installLiquidGlass(y,u),cdpApplyDarcula(y),!U.app.isPackaged''"

record patch_result =
  sourceText :: string
  alreadyPatched :: bool

definition patchBundleSource :: "string \<Rightarrow> error + patch_result" where
  "patchBundleSource src =
     (if str_includes src PATCH_MARKER
      then Inr \<lparr>sourceText = src, alreadyPatched = True\<rparr>
      else if \<not> str_includes src themeSourceAnchor
      then Inl (Error ''Could not find nativeTheme anchor in bundle'')
      else
        let patched = replace src themeSourceAnchor helperCode in
        if \<not> str_includes patched windowCreationAnchor
        then Inl (Error ''Could not find BrowserWindow hook anchor in bundle'')
        else
          let patched = replace patched windowCreationAnchor windowCreationHook in
          if \<not> str_includes patched PATCH_MARKER \<or> \<not> str_includes patched ''cdpApplyDarcula(y)''
          then Inl (Error ''Patch verification failed'')
          else Inr \<lparr>sourceText = patched, alreadyPatched = False\<rparr>)"


section \<open>JavaScript values of the header\<close>

text \<open>
  The header is what \<open>JSON.parse\<close> returns. An object is the list of its own
  properties in enumeration order (\<open>Object.entries\<close>); a real object has no key twice.
  Numbers are integers: the program reads only byte offsets and sizes as numbers.
  Strings are lists of code units.
\<close>

datatype json =
    JNull
  | JBool bool
  | JNum int
  | JStr string
  | JArr "json list"
  | JObj "(string \<times> json) list"

fun truthy :: "json \<Rightarrow> bool" where
  "truthy JNull = False"
| "truthy (JBool b) = b"
| "truthy (JNum n) = (n \<noteq> 0)"
| "truthy (JStr s) = (s \<noteq> [])"
| "truthy (JArr vs) = True"
| "truthy (JObj kvs) = True"

text \<open>
  \<open>v.k\<close> for a value other than \<open>null\<close>, \<open>None\<close> for \<open>undefined\<close>. The program reads
  the properties \<open>files\<close>, \<open>unpacked\<close>, \<open>offset\<close> and \<open>size\<close>, which only an
  object can have (an array or a string has indices and \<open>length\<close>).
\<close>

fun get_prop :: "json \<Rightarrow> string \<Rightarrow> json option" where
  "get_prop (JObj kvs) k = map_of kvs k"
| "get_prop v k = None"

text \<open>\<open>String(n)\<close> for a non-negative integer: its decimal digits.\<close>

definition digit_char :: "nat \<Rightarrow> char" where
  "digit_char d = ''0123456789'' ! d"

fun String_nat :: "nat \<Rightarrow> string" where
  "String_nat n = (if n < 10 then [digit_char n] else String_nat (n div 10) @ [digit_char (n mod 10)])"

declare String_nat.simps [simp del]

text \<open>
  The own enumerable properties of a value, as \<open>Object.entries(v)\<close> lists them and as
  the spread \<open>{ ...v }\<close> copies them: the elements of an array and the code units of a
  string under their indices, nothing for a number, a boolean or \<open>null\<close>.
\<close>

fun own_entries :: "json \<Rightarrow> (string \<times> json) list" where
  "own_entries (JObj kvs) = kvs"
| "own_entries (JArr vs) = zip (map String_nat [0..<length vs]) vs"
| "own_entries (JStr s) = zip (map String_nat [0..<length s]) (map (\<lambda>c. JStr [c]) s)"
| "own_entries v = []"

text \<open>
  The assignment \<open>o[k] = v\<close> on an ordinary object: the value of an existing key is
  replaced where it stands, a new key goes last. The key \<open>__proto__\<close> is no property
  of \<open>o\<close>: the assignment runs the setter inherited from \<open>Object.prototype\<close>, which
  changes the prototype of \<open>o\<close> and adds nothing that \<open>JSON.stringify\<close> or
  \<open>Object.entries\<close> would list. (\<open>JSON.parse\<close> and the spread define properties
  directly, so there \<open>__proto__\<close> is a key like any other.) The keys assigned by the
  program are assigned in the enumeration order of another object, so that index-like
  keys arrive in ascending order before all others, as they are enumerated.
\<close>

definition assign :: "(string \<times> json) list \<Rightarrow> string \<Rightarrow> json \<Rightarrow> (string \<times> json) list" where
  "assign kvs k v = (if k = ''__proto__'' then kvs else AList.update k v kvs)"

text \<open>
  What the program takes from the runtime: the digest, the JSON codec (on the UTF-8
  bytes of the text; \<open>None\<close> when \<open>JSON.parse\<close> throws), \<open>Number(v)\<close> for a value \<open>v\<close>
  that is not a number (\<open>None\<close> when the result is \<open>NaN\<close> or infinite), the clock, and the
  external tools \<open>PlistBuddy\<close> (printing the hash field of a property list, trimmed,
  and setting it; \<open>None\<close> on a non-zero exit status) and \<open>codesign\<close> (its exit status).
\<close>

record runtime =
  sha256 :: "buffer \<Rightarrow> string"
  JSON_parse :: "buffer \<Rightarrow> json option"
  JSON_stringify :: "json \<Rightarrow> buffer"
  JSON_stringify_indent :: "json \<Rightarrow> buffer"
  ToNumber :: "json \<Rightarrow> int option"
  toISOString_now :: string
  PlistBuddy_print :: "buffer \<Rightarrow> string option"
  PlistBuddy_set :: "string \<Rightarrow> buffer \<Rightarrow> buffer option"
  codesign_ok :: bool


section \<open>Container Codec\<close>


record parsed_asar =
  header :: json
  headerJsonLength :: nat
  dataOffset :: nat

definition parseAsar :: "runtime \<Rightarrow> buffer \<Rightarrow> error + parsed_asar" where
  "parseAsar rt buf =
     (if length buf < 20 then Inl (Error ''Invalid asar: too small'')
      else (case readUInt32LE buf 12 of
        Inl e \<Rightarrow> Inl e
      | Inr len \<Rightarrow>
          (let headerStart = 16; headerEnd = headerStart + len in
           if length buf < headerEnd
           then Inl (Error ''Invalid asar: header length exceeds file size'')
           else (case JSON_parse rt (slice buf (int headerStart) (int headerEnd)) of
             None \<Rightarrow> Inl SyntaxError
           | Some h \<Rightarrow> Inr \<lparr>header = h, headerJsonLength = len, dataOffset = headerEnd\<rparr>))))"

text \<open>\<open>entry && entry.files\<close>, and the entries of \<open>node && node.files ? node.files : {}\<close>.\<close>

definition is_dir :: "json \<Rightarrow> bool" where
  "is_dir entry = (truthy entry \<and> (case get_prop entry ''files'' of None \<Rightarrow> False | Some f \<Rightarrow> truthy f))"

definition files_of :: "json \<Rightarrow> (string \<times> json) list" where
  "files_of node =
     (if truthy node
      then (case get_prop node ''files'' of
              None \<Rightarrow> []
            | Some f \<Rightarrow> if truthy f then own_entries f else [])
      else [])"

definition join_path :: "string \<Rightarrow> string \<Rightarrow> string" where
  "join_path pfx name = (if pfx \<noteq> [] then pfx @ ''/'' @ name else name)"



text \<open>
  The traversals below recurse into the value of a property of a property; they
  terminate because such a value is smaller than the object that holds it.
\<close>

lemma size_own_entries: "sum_list (map (size \<circ> snd) (own_entries f)) \<le> size f"
proof (cases f)
  case (JArr vs)
  have "map (size \<circ> snd) (zip (map String_nat [0..<length vs]) vs) = map size vs"
    by (simp add: map_snd_zip flip: map_map)
  then show ?thesis using JArr by (simp add: size_list_conv_sum_list)
next
  case (JObj kvs)
  have "sum_list (map (size \<circ> snd) kvs) \<le> size_list (size_prod (\<lambda>_. 0) size) kvs"
    by (induction kvs) auto
  then show ?thesis using JObj by simp
next
  case (JStr s)
  have "sum_list (map (size \<circ> snd) (zip (map String_nat [0..<length s]) (map (\<lambda>c. JStr [c]) s))) = 0"
    by (auto simp: sum_list_eq_0_iff dest!: set_zip_rightD)
  then show ?thesis using JStr by simp
next
  case JNull then show ?thesis by simp
next
  case (JBool b) then show ?thesis by simp
next
  case (JNum n) then show ?thesis by simp
qed

lemma size_member: "(k, f) \<in> set kvs \<Longrightarrow> size f < size (JObj kvs)"
  by (induction kvs) auto

lemma size_map_of: "map_of kvs k = Some f \<Longrightarrow> size f < size (JObj kvs)"
  by (rule size_member) (erule map_of_SomeD)

lemma size_files_of: "sum_list (map (size \<circ> snd) (files_of node)) \<le> size node"
proof (cases "files_of node = []")
  case True
  then show ?thesis by simp
next
  case False
  then obtain kvs f where n: "node = JObj kvs" and f: "map_of kvs ''files'' = Some f"
    and e: "files_of node = own_entries f"
    by (cases node) (auto simp: files_of_def split: option.splits if_splits)
  from size_map_of[OF f] size_own_entries[of f] show ?thesis
    using n e by simp
qed

lemma size_files_of_dir:
  assumes "files_of node \<noteq> []"
  shows "sum_list (map (size \<circ> snd) (files_of node)) < size node"
proof -
  from assms obtain kvs f where n: "node = JObj kvs" and f: "map_of kvs ''files'' = Some f"
    and e: "files_of node = own_entries f"
    by (cases node) (auto simp: files_of_def split: option.splits if_splits)
  from size_map_of[OF f] size_own_entries[of f] show ?thesis
    using n e by simp
qed

text \<open>
  \<open>walkLeafEntries\<close> calls the visitor on every leaf, depth first, in the enumeration
  order of each \<open>files\<close> object. The visitor may throw, which ends the walk; what it
  does to the variables it closes over is the state \<open>'s\<close> it transforms.
\<close>

function walkLeafEntries :: "json \<Rightarrow> string \<Rightarrow> (string \<Rightarrow> json \<Rightarrow> 's \<Rightarrow> error + 's) \<Rightarrow> 's \<Rightarrow> error + 's"
  and walk_entries :: "(string \<times> json) list \<Rightarrow> string \<Rightarrow> (string \<Rightarrow> json \<Rightarrow> 's \<Rightarrow> error + 's) \<Rightarrow> 's \<Rightarrow> error + 's"
where
  "walkLeafEntries node pfx visitor s = walk_entries (files_of node) pfx visitor s"
| "walk_entries [] pfx visitor s = Inr s"
| "walk_entries ((name, entry) # rest) pfx visitor s =
     (case (if is_dir entry
            then walkLeafEntries entry (join_path pfx name) visitor s
            else visitor (join_path pfx name) entry s) of
        Inl e \<Rightarrow> Inl e
      | Inr s' \<Rightarrow> walk_entries rest pfx visitor s')"
  by pat_completeness auto
termination
proof (relation "measures
    [\<lambda>x. case x of Inl (node, _) \<Rightarrow> size node | Inr (es, _) \<Rightarrow> sum_list (map (size \<circ> snd) es),
     \<lambda>x. case x of Inl _ \<Rightarrow> 1 | Inr (es, _) \<Rightarrow> 2 * length es]", goal_cases)
  case 1
  show ?case by simp
next
  case (2 node pfx visitor s)
  show ?case
    using size_files_of[of node] size_files_of_dir[of node]
    by (cases "files_of node = []") auto
next
  case (3 name entry rest pfx visitor s)
  show ?case by fastforce
next
  case (4 name entry rest pfx visitor s x)
  show ?case by auto
qed




text \<open>
  \<open>buildAsar\<close>: the loop of \<open>computeEntryIntegrity\<close> carries the offset and the list
  of block digests; \<open>rebuildNode\<close> updates \<open>chunks\<close> and \<open>runningOffset\<close>, the two
  variables of the enclosing function, and \<open>rebuild_entries\<close> is its loop over the
  entries, with \<open>out.files\<close> as built so far.
\<close>

function integrity_blocks :: "runtime \<Rightarrow> buffer \<Rightarrow> nat \<Rightarrow> string list \<Rightarrow> string list" where
  "integrity_blocks rt fileBuffer offset blocks =
     (if offset < length fileBuffer
      then integrity_blocks rt fileBuffer (offset + INTEGRITY_BLOCK_SIZE)
             (blocks @ [sha256 rt (slice fileBuffer (int offset)
                                    (int (min (offset + INTEGRITY_BLOCK_SIZE) (length fileBuffer))))])
      else blocks)"
  by pat_completeness auto
termination
  by (relation "measure (\<lambda>(rt, fileBuffer, offset, blocks). length fileBuffer - offset)")
     (auto simp: INTEGRITY_BLOCK_SIZE_def)

definition computeEntryIntegrity :: "runtime \<Rightarrow> buffer \<Rightarrow> json" where
  "computeEntryIntegrity rt fileBuffer =
     JObj [(''algorithm'', JStr ''SHA256''),
           (''hash'', JStr (sha256 rt fileBuffer)),
           (''blockSize'', JNum (int INTEGRITY_BLOCK_SIZE)),
           (''blocks'', JArr (map JStr (integrity_blocks rt fileBuffer 0 [])))]"

record build_state =
  chunks :: "buffer list"
  runningOffset :: nat

function rebuildNode ::
    "runtime \<Rightarrow> (string \<rightharpoonup> buffer) \<Rightarrow> json \<Rightarrow> string \<Rightarrow> build_state \<Rightarrow> error + json \<times> build_state"
  and rebuild_entries ::
    "runtime \<Rightarrow> (string \<rightharpoonup> buffer) \<Rightarrow> (string \<times> json) list \<Rightarrow> string \<Rightarrow> (string \<times> json) list
       \<Rightarrow> build_state \<Rightarrow> error + (string \<times> json) list \<times> build_state"
where
  "rebuildNode rt fileMap node pfx st =
     (if node = JNull then Inl TypeError
      else (case get_prop node ''files'' of
        None \<Rightarrow> Inr (JObj (own_entries node), st)
      | Some f \<Rightarrow>
          if \<not> truthy f then Inr (JObj (own_entries node), st)
          else (case rebuild_entries rt fileMap (own_entries f) pfx [] st of
            Inl e \<Rightarrow> Inl e
          | Inr (out_files, st') \<Rightarrow>
              Inr (JObj (assign (own_entries node) ''files'' (JObj out_files)), st'))))"
| "rebuild_entries rt fileMap [] pfx out_files st = Inr (out_files, st)"
| "rebuild_entries rt fileMap ((name, entry) # rest) pfx out_files st =
     (let relPath = join_path pfx name in
      if is_dir entry then
        (case rebuildNode rt fileMap entry relPath st of
           Inl e \<Rightarrow> Inl e
         | Inr (sub, st') \<Rightarrow> rebuild_entries rt fileMap rest pfx (assign out_files name sub) st')
      else if entry = JNull then Inl TypeError
      else if get_prop entry ''unpacked'' = Some (JBool True) then
        rebuild_entries rt fileMap rest pfx (assign out_files name (JObj (own_entries entry))) st
      else
        (case fileMap relPath of
           None \<Rightarrow> Inl (Error (''Missing data for file: '' @ relPath))
         | Some fileBuffer \<Rightarrow>
             let rebuiltEntry =
                   assign (assign (assign (own_entries entry)
                     ''offset'' (JStr (String_nat (runningOffset st))))
                     ''size'' (JNum (int (length fileBuffer))))
                     ''integrity'' (computeEntryIntegrity rt fileBuffer)
             in rebuild_entries rt fileMap rest pfx (assign out_files name (JObj rebuiltEntry))
                  (st\<lparr>chunks := chunks st @ [fileBuffer],
                      runningOffset := runningOffset st + length fileBuffer\<rparr>)))"
  by pat_completeness auto
termination
proof (relation "measures
    [\<lambda>x. case x of Inl (rt, fm, node, _) \<Rightarrow> size node
                  | Inr (rt, fm, es, _) \<Rightarrow> sum_list (map (size \<circ> snd) es),
     \<lambda>x. case x of Inl _ \<Rightarrow> 1 | Inr (rt, fm, es, _) \<Rightarrow> 2 * length es]", goal_cases)
  case 1
  show ?case by simp
next
  case (2 rt fileMap node pfx st f)
  then obtain kvs where "node = JObj kvs" and "map_of kvs ''files'' = Some f"
    by (cases node) auto
  with size_map_of[of kvs "''files''" f] size_own_entries[of f] show ?case
    by simp
next
  case (3 rt fileMap name entry rest pfx out_files st relPath)
  show ?case by fastforce
next
  case 4
  then show ?case by auto
next
  case 5
  then show ?case by auto
next
  case 6
  then show ?case by auto
qed

definition buildAsar :: "runtime \<Rightarrow> json \<Rightarrow> (string \<rightharpoonup> buffer) \<Rightarrow> error + buffer" where
  "buildAsar rt hdr fileMap =
     (case rebuildNode rt fileMap hdr [] \<lparr>chunks = [], runningOffset = 0\<rparr> of
        Inl e \<Rightarrow> Inl e
      | Inr (rebuiltHeader, st) \<Rightarrow>
          let headerJsonBuffer = JSON_stringify rt rebuiltHeader;
              n = length headerJsonBuffer
          in (case writeUInt32LE (replicate 16 (CHR 0x00)) 4 0 of
               Inl e \<Rightarrow> Inl e
             | Inr p0 \<Rightarrow>
           (case writeUInt32LE p0 (n + 8) 4 of
               Inl e \<Rightarrow> Inl e
             | Inr p1 \<Rightarrow>
           (case writeUInt32LE p1 (n + 4) 8 of
               Inl e \<Rightarrow> Inl e
             | Inr p2 \<Rightarrow>
           (case writeUInt32LE p2 n 12 of
               Inl e \<Rightarrow> Inl e
             | Inr prelude \<Rightarrow> Inr (prelude @ headerJsonBuffer @ concat (chunks st)))))))"



section \<open>Files, backup and the patch command\<close>

text \<open>
  The file system is a partial function from path names to contents, the console the
  list of lines printed so far. A function that can throw after it has written
  returns the error, if any, together with the state it leaves behind.
  \<open>path.join\<close> is modelled for an application path in normal form.
\<close>

record paths =
  appPath :: string
  infoPlistPath :: string
  infoPlistBackupPath :: string
  asarPath :: string
  backupPath :: string
  metaPath :: string
  tempPath :: string

definition getPaths :: "string \<Rightarrow> paths" where
  "getPaths app =
     (let resourcesDir = app @ ''/Contents/Resources'' in
      \<lparr>appPath = app,
       infoPlistPath = app @ ''/Contents/Info.plist'',
       infoPlistBackupPath = resourcesDir @ ''/Info.plist.bak-darcula'',
       asarPath = resourcesDir @ ''/app.asar'',
       backupPath = resourcesDir @ ''/app.asar.bak-darcula'',
       metaPath = resourcesDir @ ''/app.asar.darcula-meta.json'',
       tempPath = resourcesDir @ ''/app.asar.tmp-darcula''\<rparr>)"

record world =
  files :: "string \<rightharpoonup> buffer"
  console :: "string list"

definition existsSync :: "world \<Rightarrow> string \<Rightarrow> bool" where
  "existsSync w p = (files w p \<noteq> None)"

definition writeFileSync :: "world \<Rightarrow> string \<Rightarrow> buffer \<Rightarrow> world" where
  "writeFileSync w p d = w\<lparr>files := (files w)(p \<mapsto> d)\<rparr>"

definition copyFileSync :: "world \<Rightarrow> string \<Rightarrow> string \<Rightarrow> error option \<times> world" where
  "copyFileSync w src dst =
     (case files w src of
        None \<Rightarrow> (Some (Error ''ENOENT: no such file or directory''), w)
      | Some d \<Rightarrow> (None, writeFileSync w dst d))"


definition console_log :: "world \<Rightarrow> string \<Rightarrow> world" where
  "console_log w line = w\<lparr>console := console w @ [line]\<rparr>"


definition ensureBackup :: "paths \<Rightarrow> buffer \<Rightarrow> world \<Rightarrow> error option \<times> world" where
  "ensureBackup p currentAsarBuffer w =
     (let w1 = (if \<not> existsSync w (backupPath p)
                then console_log (writeFileSync w (backupPath p) currentAsarBuffer)
                       (''Backup created: '' @ backupPath p)
                else console_log w (''Backup exists: '' @ backupPath p))
      in if \<not> existsSync w1 (infoPlistBackupPath p)
         then (case copyFileSync w1 (infoPlistPath p) (infoPlistBackupPath p) of
                 (Some e, w2) \<Rightarrow> (Some e, w2)
               | (None, w2) \<Rightarrow>
                   (None, console_log w2 (''Backup created: '' @ infoPlistBackupPath p)))
         else (None, console_log w1 (''Backup exists: '' @ infoPlistBackupPath p)))"







section \<open>Leaves, layout and well-formed names\<close>

text \<open>
  The leaves of a tree in traversal order: what \<open>walkLeafEntries\<close> hands to a visitor
  that records its arguments. \<open>visit_all\<close> runs a visitor over such a list.
\<close>

definition collect_leaf :: "string \<Rightarrow> json \<Rightarrow> (string \<times> json) list \<Rightarrow> error + (string \<times> json) list" where
  "collect_leaf relPath entry acc = Inr (acc @ [(relPath, entry)])"

definition walked :: "(string \<times> json) list \<Rightarrow> string \<Rightarrow> (string \<times> json) list" where
  "walked es pfx = (case walk_entries es pfx collect_leaf [] of Inr l \<Rightarrow> l | Inl e \<Rightarrow> [])"

definition leaf_entries :: "json \<Rightarrow> (string \<times> json) list" where
  "leaf_entries node = walked (files_of node) []"

fun visit_all :: "(string \<Rightarrow> json \<Rightarrow> 's \<Rightarrow> error + 's) \<Rightarrow> (string \<times> json) list \<Rightarrow> 's \<Rightarrow> error + 's" where
  "visit_all visitor [] s = Inr s"
| "visit_all visitor ((relPath, entry) # rest) s =
     (case visitor relPath entry s of Inl e \<Rightarrow> Inl e | Inr s' \<Rightarrow> visit_all visitor rest s')"

text \<open>
  The entry names of a tree are usable as property names: in every \<open>files\<close> object
  that the traversal reaches no name occurs twice (as in every object) and none is
  \<open>__proto__\<close>.
\<close>

function files_wf :: "json \<Rightarrow> bool" where
  "files_wf node =
     (distinct (map fst (files_of node)) \<and> ''__proto__'' \<notin> set (map fst (files_of node)) \<and>
      (\<forall>x \<in> set (files_of node). is_dir (snd x) \<longrightarrow> files_wf (snd x)))"
  by pat_completeness auto
termination
proof (relation "measure size", goal_cases)
  case 1
  show ?case by simp
next
  case (2 node x)
  then have "size (snd x) \<le> sum_list (map (size \<circ> snd) (files_of node))"
    by (simp add: member_le_sum_list)
  moreover from 2 have "files_of node \<noteq> []" by auto
  ultimately show ?case using size_files_of_dir[of node] by simp
qed

declare files_wf.simps [simp del]

declare rebuildNode.simps [simp del]
declare rebuild_entries.simps(2) [simp del]

text \<open>
  The layout the spec describes for a rebuilt container, on the list of leaves: an
  unpacked entry is kept as it is; a packed entry gets the running total as its offset,
  the length of its buffer as its size and the integrity record of that buffer, and
  its buffer is the next piece of the data region.
\<close>

definition is_unpacked :: "json \<Rightarrow> bool" where
  "is_unpacked entry = (get_prop entry ''unpacked'' = Some (JBool True))"

definition relaid_entry :: "runtime \<Rightarrow> json \<Rightarrow> nat \<Rightarrow> buffer \<Rightarrow> json" where
  "relaid_entry rt entry n b =
     JObj (assign (assign (assign (own_entries entry)
       ''offset'' (JStr (String_nat n)))
       ''size'' (JNum (int (length b))))
       ''integrity'' (computeEntryIntegrity rt b))"

fun packed_data :: "(string \<rightharpoonup> buffer) \<Rightarrow> (string \<times> json) list \<Rightarrow> buffer list" where
  "packed_data fm [] = []"
| "packed_data fm ((p, e) # rest) =
     (if is_unpacked e then packed_data fm rest
      else (case fm p of None \<Rightarrow> packed_data fm rest | Some b \<Rightarrow> b # packed_data fm rest))"

fun relaid :: "runtime \<Rightarrow> (string \<rightharpoonup> buffer) \<Rightarrow> (string \<times> json) list \<Rightarrow> nat \<Rightarrow> (string \<times> json) list" where
  "relaid rt fm [] n = []"
| "relaid rt fm ((p, e) # rest) n =
     (if is_unpacked e then (p, e) # relaid rt fm rest n
      else (case fm p of
              None \<Rightarrow> relaid rt fm rest n
            | Some b \<Rightarrow> (p, relaid_entry rt e n b) # relaid rt fm rest (n + length b)))"

text \<open>
  A list cut into consecutive chunks of a fixed size, the last one possibly shorter.
\<close>

function fixed_chunks :: "nat \<Rightarrow> 'a list \<Rightarrow> 'a list list" where
  "fixed_chunks n xs = (if n = 0 \<or> xs = [] then [] else take n xs # fixed_chunks n (drop n xs))"
  by pat_completeness auto
termination
  by (relation "measure (\<lambda>(n, xs). length xs)") auto

declare fixed_chunks.simps [simp del]

declare integrity_blocks.simps [simp del]

text \<open>
  A leaf of a rebuilt header agrees with a data region \<open>D\<close>: it is unpacked, or its
  offset and size name a range of \<open>D\<close> and its integrity record is that of the bytes
  there.
\<close>

definition leaf_good :: "runtime \<Rightarrow> buffer \<Rightarrow> json \<Rightarrow> bool" where
  "leaf_good rt D e =
     (is_unpacked e \<or>
      (\<exists>n b. get_prop e ''offset'' = Some (JStr (String_nat n)) \<and>
             get_prop e ''size'' = Some (JNum (int (length b))) \<and>
             get_prop e ''integrity'' = Some (computeEntryIntegrity rt b) \<and>
             n + length b \<le> length D \<and> take (length b) (drop n D) = b))"

definition entries_wf :: "(string \<times> json) list \<Rightarrow> bool" where
  "entries_wf es =
     (distinct (map fst es) \<and> ''__proto__'' \<notin> set (map fst es) \<and>
      (\<forall>x \<in> set es. is_dir (snd x) \<longrightarrow> files_wf (snd x)))"


definition packed_paths :: "(string \<times> json) list \<Rightarrow> string set" where
  "packed_paths leaves = {p. \<exists>e. (p, e) \<in> set leaves \<and> \<not> is_unpacked e}"

section \<open>A runtime for evaluation\<close>

text \<open>
  The theorems below hold for every runtime. To evaluate the program on concrete
  containers a runtime is fixed here: a serializer and a reader for compact JSON as
  \<open>JSON.stringify\<close> writes it, the conversion of decimal strings to numbers, a
  stand-in for the digest, and a manifest that consists of the hash alone.
\<close>

definition join_with :: "string \<Rightarrow> string list \<Rightarrow> string" where
  "join_with sep xs = (case xs of [] \<Rightarrow> [] | y # ys \<Rightarrow> y @ concat (map (\<lambda>z. sep @ z) ys))"

definition int_text :: "int \<Rightarrow> string" where
  "int_text n = (if n < 0 then ''-'' @ String_nat (nat (- n)) else String_nat (nat n))"

fun json_text :: "json \<Rightarrow> string" where
  "json_text JNull = ''null''"
| "json_text (JBool b) = (if b then ''true'' else ''false'')"
| "json_text (JNum n) = int_text n"
| "json_text (JStr s) = quote_string s"
| "json_text (JArr vs) = ''['' @ join_with '','' (map json_text vs) @ '']''"
| "json_text (JObj kvs) =
     ''{'' @ join_with '','' (map (\<lambda>kv. quote_string (fst kv) @ '':'' @ json_text (snd kv)) kvs) @ ''}''"

definition is_digit :: "char \<Rightarrow> bool" where
  "is_digit c = (48 \<le> (of_char c :: nat) \<and> (of_char c :: nat) \<le> 57)"

fun digits_value :: "nat \<Rightarrow> string \<Rightarrow> nat" where
  "digits_value acc [] = acc"
| "digits_value acc (c # cs) = digits_value (10 * acc + (of_char c - 48)) cs"

definition decimal_value :: "string \<Rightarrow> nat option" where
  "decimal_value s = (if s \<noteq> [] \<and> list_all is_digit s then Some (digits_value 0 s) else None)"

fun read_string :: "string \<Rightarrow> string \<Rightarrow> (string \<times> string) option" where
  "read_string acc [] = None"
| "read_string acc [c] = (if c = CHR 0x22 then Some (acc, []) else None)"
| "read_string acc (c # d # cs) =
     (if c = CHR 0x22 then Some (acc, d # cs)
      else if c = CHR 0x5C then
        (if d = CHR ''n'' then read_string (acc @ [CHR 0x0A]) cs
         else if d = CHR 0x22 \<or> d = CHR 0x5C \<or> d = CHR ''/'' then read_string (acc @ [d]) cs
         else None)
      else read_string (acc @ [c]) (d # cs))"

definition read_atom :: "string \<Rightarrow> (json \<times> string) option" where
  "read_atom s =
     (if take 4 s = ''null'' then Some (JNull, drop 4 s)
      else if take 4 s = ''true'' then Some (JBool True, drop 4 s)
      else if take 5 s = ''false'' then Some (JBool False, drop 5 s)
      else if take 2 s = ''{}'' then Some (JObj [], drop 2 s)
      else if take 2 s = ''[]'' then Some (JArr [], drop 2 s)
      else if take 1 s = [CHR 0x22] then
        (case read_string [] (drop 1 s) of
           None \<Rightarrow> None
         | Some (t, r) \<Rightarrow> Some (JStr t, r))
      else if take 1 s = ''-'' then
        (case decimal_value (takeWhile is_digit (drop 1 s)) of
           None \<Rightarrow> None
         | Some v \<Rightarrow> Some (JNum (- int v), dropWhile is_digit (drop 1 s)))
      else
        (case decimal_value (takeWhile is_digit s) of
           None \<Rightarrow> None
         | Some v \<Rightarrow> Some (JNum (int v), dropWhile is_digit s)))"

definition read_key :: "string \<Rightarrow> (string \<times> string) option" where
  "read_key s =
     (if take 1 s = [CHR 0x22] then
        (case read_string [] (drop 1 s) of
           None \<Rightarrow> None
         | Some (k, r) \<Rightarrow> if take 1 r = '':'' then Some (k, drop 1 r) else None)
      else None)"

function read_value :: "string \<Rightarrow> string \<Rightarrow> (json \<times> string) option"
  and read_members :: "string \<Rightarrow> (string \<times> json) list \<Rightarrow> string \<Rightarrow> (json \<times> string) option"
  and read_elements :: "string \<Rightarrow> json list \<Rightarrow> string \<Rightarrow> (json \<times> string) option"
where
  "read_value [] s = None"
| "read_value (f # n) s =
     (if take 1 s = ''{'' \<and> take 2 s \<noteq> ''{}'' then read_members n [] (drop 1 s)
      else if take 1 s = ''['' \<and> take 2 s \<noteq> ''[]'' then read_elements n [] (drop 1 s)
      else read_atom s)"
| "read_members [] acc s = None"
| "read_members (f # n) acc s =
     (case read_key s of
        None \<Rightarrow> None
      | Some (k, r) \<Rightarrow>
          (case read_value n r of
             None \<Rightarrow> None
           | Some (v, r') \<Rightarrow>
               if take 1 r' = '','' then read_members n (acc @ [(k, v)]) (drop 1 r')
               else if take 1 r' = ''}'' then Some (JObj (acc @ [(k, v)]), drop 1 r')
               else None))"
| "read_elements [] acc s = None"
| "read_elements (f # n) acc s =
     (case read_value n s of
        None \<Rightarrow> None
      | Some (v, r) \<Rightarrow>
          if take 1 r = '','' then read_elements n (acc @ [v]) (drop 1 r)
          else if take 1 r = '']'' then Some (JArr (acc @ [v]), drop 1 r)
          else None)"
  by pat_completeness auto
termination
  by (relation "measure (\<lambda>x. case x of Inl (n, _) \<Rightarrow> length n
                                | Inr (Inl (n, _)) \<Rightarrow> length n
                                | Inr (Inr (n, _)) \<Rightarrow> length n)") auto

definition json_read :: "string \<Rightarrow> json option" where
  "json_read s = (case read_value (CHR ''.'' # s) s of Some (v, []) \<Rightarrow> Some v | _ \<Rightarrow> None)"

definition ref_ToNumber :: "json \<Rightarrow> int option" where
  "ref_ToNumber v =
     (case v of
        JStr s \<Rightarrow> (if s = [] then Some 0 else map_option int (decimal_value s))
      | JNull \<Rightarrow> Some 0
      | JBool b \<Rightarrow> Some (if b then 1 else 0)
      | _ \<Rightarrow> None)"

definition ref_digest :: "buffer \<Rightarrow> string" where
  "ref_digest b = ''digest-'' @ String_nat (length b)"

definition ref_runtime :: runtime where
  "ref_runtime =
     \<lparr>sha256 = ref_digest,
      JSON_parse = json_read,
      JSON_stringify = json_text,
      JSON_stringify_indent = json_text,
      ToNumber = ref_ToNumber,
      toISOString_now = ''2026-01-01T00:00:00.000Z'',
      PlistBuddy_print = (\<lambda>d. if d = [] then None else Some d),
      PlistBuddy_set = (\<lambda>h d. Some h),
      codesign_ok = True\<rparr>"



text \<open>A bundle text that holds each anchor twice.\<close>

definition sample_bundle :: string where
  "sample_bundle = themeSourceAnchor @ windowCreationAnchor @ themeSourceAnchor @ windowCreationAnchor"


text \<open>
  The prelude that \<open>buildAsar\<close> writes for a header of \<open>n\<close> bytes: four little-endian
  32-bit fields.
\<close>

definition le32_bytes :: "nat \<Rightarrow> buffer" where
  "le32_bytes v = [char_of v, char_of (v div 256), char_of (v div 65536), char_of (v div 16777216)]"

definition prelude_for :: "nat \<Rightarrow> buffer" where
  "prelude_for n = le32_bytes 4 @ le32_bytes (n + 8) @ le32_bytes (n + 4) @ le32_bytes n"


text \<open>
  A container with two packed entries, one in a directory, and an unpacked entry, the
  map extracted from it, and the container rebuilt from the two.
\<close>

definition sample_header :: json where
  "sample_header =
     JObj [(''files'', JObj
       [(''a.txt'', JObj [(''size'', JNum 3), (''offset'', JStr ''0'')]),
        (''dir'', JObj [(''files'', JObj
           [(''b.bin'', JObj [(''size'', JNum 2), (''offset'', JStr ''3''), (''executable'', JBool True)]),
            (''u'', JObj [(''size'', JNum 9), (''unpacked'', JBool True)])])])])]"

definition sample_map :: "string \<rightharpoonup> buffer" where
  "sample_map = [''a.txt'' \<mapsto> ''abc'', ''dir/b.bin'' \<mapsto> ''de'']"


definition sample_rebuilt_header :: json where
  "sample_rebuilt_header =
     JObj [(''files'', JObj
       [(''a.txt'', JObj [(''size'', JNum 3), (''offset'', JStr ''0''),
           (''integrity'', JObj [(''algorithm'', JStr ''SHA256''), (''hash'', JStr ''digest-3''),
              (''blockSize'', JNum 4194304), (''blocks'', JArr [JStr ''digest-3''])])]),
        (''dir'', JObj [(''files'', JObj
           [(''b.bin'', JObj [(''size'', JNum 2), (''offset'', JStr ''3''), (''executable'', JBool True),
               (''integrity'', JObj [(''algorithm'', JStr ''SHA256''), (''hash'', JStr ''digest-2''),
                  (''blockSize'', JNum 4194304), (''blocks'', JArr [JStr ''digest-2''])])]),
            (''u'', JObj [(''size'', JNum 9), (''unpacked'', JBool True)])])])])]"

definition sample_rebuilt :: buffer where
  "sample_rebuilt = prelude_for 332 @ json_text sample_rebuilt_header @ ''abcde''"




text \<open>A header with entries named \<open>__proto__\<close>, one packed and one unpacked.\<close>

definition proto_header :: json where
  "proto_header =
     JObj [(''files'', JObj
       [(''__proto__'', JObj [(''size'', JNum 2), (''offset'', JStr ''0'')]),
        (''b'', JObj [(''size'', JNum 1), (''offset'', JStr ''2'')]),
        (''dir'', JObj [(''files'', JObj
           [(''__proto__'', JObj [(''size'', JNum 7), (''unpacked'', JBool True)])])])])]"

definition proto_map :: "string \<rightharpoonup> buffer" where
  "proto_map = [''__proto__'' \<mapsto> ''ab'', ''b'' \<mapsto> ''c'']"











section \<open>Parsing the prelude\<close>

lemma slice_nonneg:
  "slice buf (int a) (int b) = take (b - a) (drop a buf)"
  by (auto simp: slice_def Let_def min_def max_def nat_diff_distrib' take_all)

text \<open>
  Claim C7. \<open>parseAsar\<close> fails with the "too small" error on every buffer shorter than 20
  bytes, and with the "header length exceeds file size" error on every longer buffer
  whose length field at offset 12 puts the end of the header past the end of the
  buffer (both are the spec's FormatError); on every other buffer the 32-bit read and
  the slice of the header succeed, the slice has the declared length, and the result
  is decided by \<open>JSON.parse\<close> alone.
\<close>

theorem parseAsar_cases:
  "(length buf < 20 \<longrightarrow> parseAsar rt buf = Inl (Error ''Invalid asar: too small'')) \<and>
   (20 \<le> length buf \<and> length buf < 16 + uint32le buf 12 \<longrightarrow>
      parseAsar rt buf = Inl (Error ''Invalid asar: header length exceeds file size'')) \<and>
   (20 \<le> length buf \<and> 16 + uint32le buf 12 \<le> length buf \<longrightarrow>
      readUInt32LE buf 12 = Inr (uint32le buf 12) \<and>
      length (slice buf 16 (int (16 + uint32le buf 12))) = uint32le buf 12 \<and>
      parseAsar rt buf =
        (case JSON_parse rt (take (uint32le buf 12) (drop 16 buf)) of
           None \<Rightarrow> Inl SyntaxError
         | Some h \<Rightarrow> Inr \<lparr>header = h, headerJsonLength = uint32le buf 12,
                           dataOffset = 16 + uint32le buf 12\<rparr>))"
proof -
  have s: "slice buf (int 16) (int (16 + uint32le buf 12)) = take (uint32le buf 12) (drop 16 buf)"
    by (simp only: slice_nonneg) simp
  have r: "20 \<le> length buf \<Longrightarrow> readUInt32LE buf 12 = Inr (uint32le buf 12)"
    by (simp add: readUInt32LE_def)
  have a: "length buf < 20 \<Longrightarrow> parseAsar rt buf = Inl (Error ''Invalid asar: too small'')"
    by (simp add: parseAsar_def)
  have b: "20 \<le> length buf \<Longrightarrow> length buf < 16 + uint32le buf 12 \<Longrightarrow>
      parseAsar rt buf = Inl (Error ''Invalid asar: header length exceeds file size'')"
    by (simp add: parseAsar_def r)
  have c: "20 \<le> length buf \<Longrightarrow> 16 + uint32le buf 12 \<le> length buf \<Longrightarrow>
      parseAsar rt buf =
        (case JSON_parse rt (take (uint32le buf 12) (drop 16 buf)) of
           None \<Rightarrow> Inl SyntaxError
         | Some h \<Rightarrow> Inr \<lparr>header = h, headerJsonLength = uint32le buf 12,
                           dataOffset = 16 + uint32le buf 12\<rparr>)"
    using s by (simp add: parseAsar_def r Let_def del: of_nat_add)
  have d: "16 + uint32le buf 12 \<le> length buf \<Longrightarrow>
      length (slice buf 16 (int (16 + uint32le buf 12))) = uint32le buf 12"
    using s by simp
  from a b c d r show ?thesis by blast
qed


theorem parseAsar_cases_witness:
  "parseAsar ref_runtime ''abc'' = Inl (Error ''Invalid asar: too small'') \<and>
   parseAsar ref_runtime
     ([CHR 0x04, CHR 0x00, CHR 0x00, CHR 0x00, CHR 0x6C, CHR 0x00, CHR 0x00, CHR 0x00,
       CHR 0x68, CHR 0x00, CHR 0x00, CHR 0x00, CHR 0x64, CHR 0x00, CHR 0x00, CHR 0x00] @ ''null'')
     = Inl (Error ''Invalid asar: header length exceeds file size'') \<and>
   parseAsar ref_runtime
     ([CHR 0x04, CHR 0x00, CHR 0x00, CHR 0x00, CHR 0x0C, CHR 0x00, CHR 0x00, CHR 0x00,
       CHR 0x08, CHR 0x00, CHR 0x00, CHR 0x00, CHR 0x04, CHR 0x00, CHR 0x00, CHR 0x00] @ ''null'')
     = Inr \<lparr>header = JNull, headerJsonLength = 4, dataOffset = 20\<rparr>"
proof -
  let ?b2 = "[CHR 0x04, CHR 0x00, CHR 0x00, CHR 0x00, CHR 0x6C, CHR 0x00, CHR 0x00, CHR 0x00,
       CHR 0x68, CHR 0x00, CHR 0x00, CHR 0x00, CHR 0x64, CHR 0x00, CHR 0x00, CHR 0x00] @ ''null''"
  let ?b3 = "[CHR 0x04, CHR 0x00, CHR 0x00, CHR 0x00, CHR 0x0C, CHR 0x00, CHR 0x00, CHR 0x00,
       CHR 0x08, CHR 0x00, CHR 0x00, CHR 0x00, CHR 0x04, CHR 0x00, CHR 0x00, CHR 0x00] @ ''null''"
  have u2: "uint32le ?b2 12 = 100" and u3: "uint32le ?b3 12 = 4"
    by (simp_all add: uint32le_def)
  have p: "JSON_parse ref_runtime ''null'' = Some JNull"
    by (simp add: ref_runtime_def json_read_def read_atom_def)
  from parseAsar_cases[of "''abc''" ref_runtime]
  have 1: "parseAsar ref_runtime ''abc'' = Inl (Error ''Invalid asar: too small'')"
    by simp
  from parseAsar_cases[of ?b2 ref_runtime] u2
  have 2: "parseAsar ref_runtime ?b2 = Inl (Error ''Invalid asar: header length exceeds file size'')"
    by simp
  from parseAsar_cases[of ?b3 ref_runtime] u3 p
  have 3: "parseAsar ref_runtime ?b3 = Inr \<lparr>header = JNull, headerJsonLength = 4, dataOffset = 20\<rparr>"
    by simp
  from 1 2 3 show ?thesis by blast
qed

section \<open>Backup safety\<close>

lemma ensureBackup_files:
  "files (snd (ensureBackup p buf w)) =
     (let f1 = (if files w (backupPath p) = None then (files w)(backupPath p \<mapsto> buf) else files w)
      in if f1 (infoPlistBackupPath p) = None
         then (case f1 (infoPlistPath p) of None \<Rightarrow> f1 | Some d \<Rightarrow> f1(infoPlistBackupPath p \<mapsto> d))
         else f1)"
  by (simp add: ensureBackup_def existsSync_def writeFileSync_def console_log_def
      copyFileSync_def Let_def split: option.split)

lemma ensureBackup_ok:
  "fst (ensureBackup p buf w) = None \<Longrightarrow>
     files (snd (ensureBackup p buf w)) (backupPath p) \<noteq> None \<and>
     files (snd (ensureBackup p buf w)) (infoPlistBackupPath p) \<noteq> None"
  by (simp add: ensureBackup_def existsSync_def writeFileSync_def console_log_def
      copyFileSync_def Let_def split: option.splits if_splits)

lemma ensureBackup_noop:
  "files w (backupPath p) = Some b \<Longrightarrow> files w (infoPlistBackupPath p) = Some c \<Longrightarrow>
     ensureBackup p buf w =
       (None, console_log (console_log w (''Backup exists: '' @ backupPath p))
                (''Backup exists: '' @ infoPlistBackupPath p))"
  by (simp add: ensureBackup_def existsSync_def console_log_def Let_def)

text \<open>
  Claim C9. \<open>ensureBackup\<close> never overwrites: a backup of the container that exists
  before the call has the same bytes after it, and so has a backup of the manifest,
  whether the call returns or throws; and a second call right after a call that
  returned leaves every file as the first call left it, whatever buffer it is given.
\<close>

theorem ensureBackup_never_overwrites:
  "(files w (backupPath p) = Some b \<longrightarrow>
      files (snd (ensureBackup p buf w)) (backupPath p) = Some b) \<and>
   (files w (infoPlistBackupPath p) = Some c \<longrightarrow>
      files (snd (ensureBackup p buf w)) (infoPlistBackupPath p) = Some c) \<and>
   (fst (ensureBackup p buf w) = None \<longrightarrow>
      files (snd (ensureBackup p buf' (snd (ensureBackup p buf w))))
        = files (snd (ensureBackup p buf w)))"
proof (intro conjI impI)
  assume "files w (backupPath p) = Some b"
  then show "files (snd (ensureBackup p buf w)) (backupPath p) = Some b"
    by (cases "backupPath p = infoPlistBackupPath p")
       (auto simp: ensureBackup_files Let_def split: option.split)
next
  assume "files w (infoPlistBackupPath p) = Some c"
  then show "files (snd (ensureBackup p buf w)) (infoPlistBackupPath p) = Some c"
    by (cases "backupPath p = infoPlistBackupPath p")
       (auto simp: ensureBackup_files Let_def split: option.split)
next
  assume "fst (ensureBackup p buf w) = None"
  from ensureBackup_ok[OF this]
  show "files (snd (ensureBackup p buf' (snd (ensureBackup p buf w))))
        = files (snd (ensureBackup p buf w))"
    by (auto simp: ensureBackup_noop console_log_def)
qed


theorem ensureBackup_never_overwrites_witness:
  "files (snd (ensureBackup (getPaths ''/A'') ''new''
       \<lparr>files = [asarPath (getPaths ''/A'') \<mapsto> ''new'',
                 infoPlistPath (getPaths ''/A'') \<mapsto> ''plist'',
                 backupPath (getPaths ''/A'') \<mapsto> ''old''],
        console = []\<rparr>)) (backupPath (getPaths ''/A'')) = Some ''old'' \<and>
   files (snd (ensureBackup (getPaths ''/A'') ''new''
       \<lparr>files = [infoPlistBackupPath (getPaths ''/A'') \<mapsto> ''oldplist''],
        console = []\<rparr>)) (infoPlistBackupPath (getPaths ''/A'')) = Some ''oldplist'' \<and>
   files (snd (ensureBackup (getPaths ''/A'') ''newer''
       (snd (ensureBackup (getPaths ''/A'') ''new''
          \<lparr>files = [asarPath (getPaths ''/A'') \<mapsto> ''new'',
                    infoPlistPath (getPaths ''/A'') \<mapsto> ''plist''],
           console = []\<rparr>)))) (backupPath (getPaths ''/A'')) = Some ''new''"
proof -
  let ?p = "getPaths ''/A''"
  let ?w1 = "\<lparr>files = [asarPath ?p \<mapsto> ''new'', infoPlistPath ?p \<mapsto> ''plist'',
                         backupPath ?p \<mapsto> ''old''], console = []\<rparr>"
  let ?w2 = "\<lparr>files = [infoPlistBackupPath ?p \<mapsto> ''oldplist''], console = [] :: string list\<rparr>"
  let ?w3 = "\<lparr>files = [asarPath ?p \<mapsto> ''new'', infoPlistPath ?p \<mapsto> ''plist''],
             console = [] :: string list\<rparr>"
  have a: "files ?w1 (backupPath ?p) = Some ''old''" by simp
  have b: "files ?w2 (infoPlistBackupPath ?p) = Some ''oldplist''" by simp
  have c: "ensureBackup ?p ''new'' ?w3 =
      (None, \<lparr>files = [asarPath ?p \<mapsto> ''new'', infoPlistPath ?p \<mapsto> ''plist'',
                        backupPath ?p \<mapsto> ''new'', infoPlistBackupPath ?p \<mapsto> ''plist''],
               console = [''Backup created: '' @ backupPath ?p,
                          ''Backup created: '' @ infoPlistBackupPath ?p]\<rparr>)"
    by (simp add: ensureBackup_def existsSync_def writeFileSync_def console_log_def
        copyFileSync_def getPaths_def Let_def)
  from ensureBackup_never_overwrites[of ?w1 ?p "''old''" "''new''"] a
  have 1: "files (snd (ensureBackup ?p ''new'' ?w1)) (backupPath ?p) = Some ''old''"
    by blast
  from ensureBackup_never_overwrites[of ?w2 ?p _ "''new''" "''oldplist''"] b
  have 2: "files (snd (ensureBackup ?p ''new'' ?w2)) (infoPlistBackupPath ?p) = Some ''oldplist''"
    by blast
  from ensureBackup_never_overwrites[of ?w3 ?p _ "''new''" _ "''newer''"] c
  have "files (snd (ensureBackup ?p ''newer'' (snd (ensureBackup ?p ''new'' ?w3))))
          = files (snd (ensureBackup ?p ''new'' ?w3))"
    by simp
  with c have 3: "files (snd (ensureBackup ?p ''newer'' (snd (ensureBackup ?p ''new'' ?w3))))
      (backupPath ?p) = Some ''new''"
    by (simp add: getPaths_def)
  from 1 2 3 show ?thesis by blast
qed


section \<open>Patch Engine: idempotence, failures, first occurrences\<close>

lemma indexOf_Some:
  "indexOf s p = Some i \<Longrightarrow> s = take i s @ p @ drop (i + length p) s"
proof (induction s arbitrary: i)
  case Nil
  then show ?case by (simp split: if_splits)
next
  case (Cons c cs)
  show ?case
  proof (cases "prefix p (c # cs)")
    case True
    with Cons.prems have "i = 0" by simp
    with True show ?thesis by (auto simp: prefix_def)
  next
    case False
    with Cons.prems obtain j where j: "indexOf cs p = Some j" "i = Suc j" by auto
    from Cons.IH[OF j(1)] j(2) show ?thesis by simp
  qed
qed

lemma indexOf_first:
  "indexOf s p = Some i \<Longrightarrow> j < i \<Longrightarrow> \<not> prefix p (drop j s)"
proof (induction s arbitrary: i j)
  case Nil
  then show ?case by (simp split: if_splits)
next
  case (Cons c cs)
  show ?case
  proof (cases "prefix p (c # cs)")
    case True
    with Cons.prems show ?thesis by simp
  next
    case False
    with Cons.prems obtain k where k: "indexOf cs p = Some k" "i = Suc k" by auto
    show ?thesis
    proof (cases j)
      case 0
      with False show ?thesis by simp
    next
      case (Suc j')
      with Cons.prems k have "j' < k" by simp
      from Cons.IH[OF k(1) this] Suc show ?thesis by simp
    qed
  qed
qed

lemma indexOf_None: "indexOf s p = None \<Longrightarrow> s \<noteq> a @ p @ b"
proof (induction s arbitrary: a)
  case Nil
  then show ?case by (auto split: if_splits)
next
  case (Cons c cs)
  from Cons.prems have np: "\<not> prefix p (c # cs)" and n: "indexOf cs p = None"
    by (auto split: if_splits)
  show ?case
  proof (cases a)
    case Nil
    with np show ?thesis by (auto simp: prefix_def)
  next
    case (Cons d a')
    with Cons.IH[OF n, of a'] show ?thesis by auto
  qed
qed

lemma str_includes_iff: "str_includes s p \<longleftrightarrow> (\<exists>a b. s = a @ p @ b)"
proof
  assume "str_includes s p"
  then obtain i where "indexOf s p = Some i" by (auto simp: str_includes_def)
  from indexOf_Some[OF this] show "\<exists>a b. s = a @ p @ b" by blast
next
  assume "\<exists>a b. s = a @ p @ b"
  then show "str_includes s p"
    using indexOf_None[of s p] by (auto simp: str_includes_def)
qed

lemma indexOf_bound: "indexOf s p = Some i \<Longrightarrow> i \<le> length s"
  by (induction s arbitrary: i) (auto split: if_splits)

lemma replace_first:
  assumes "str_includes s p"
  shows "\<exists>a b. s = a @ p @ b \<and> replace s p r = a @ r @ b \<and>
           (\<forall>j < length a. \<not> prefix p (drop j s))"
proof -
  from assms obtain i where i: "indexOf s p = Some i" by (auto simp: str_includes_def)
  let ?a = "take i s" and ?b = "drop (i + length p) s"
  from indexOf_Some[OF i] have s: "s = ?a @ p @ ?b" .
  from indexOf_bound[OF i] have la: "length ?a = i" by simp
  have r: "replace s p r = ?a @ r @ ?b" using i by (simp add: replace_def)
  have f: "\<forall>j < length ?a. \<not> prefix p (drop j s)"
    using indexOf_first[OF i] la by simp
  show ?thesis
    apply (rule exI[of _ ?a])
    apply (rule exI[of _ ?b])
    using s r f by blast
qed

lemma patch_marked:
  "str_includes src PATCH_MARKER \<Longrightarrow>
     patchBundleSource src = Inr \<lparr>sourceText = src, alreadyPatched = True\<rparr>"
  by (simp add: patchBundleSource_def)

lemma patch_no_anchor1:
  "\<not> str_includes src PATCH_MARKER \<Longrightarrow> \<not> str_includes src themeSourceAnchor \<Longrightarrow>
     patchBundleSource src = Inl (Error ''Could not find nativeTheme anchor in bundle'')"
  by (simp add: patchBundleSource_def)

lemma patch_no_anchor2:
  "\<not> str_includes src PATCH_MARKER \<Longrightarrow> str_includes src themeSourceAnchor \<Longrightarrow>
   \<not> str_includes (replace src themeSourceAnchor helperCode) windowCreationAnchor \<Longrightarrow>
     patchBundleSource src = Inl (Error ''Could not find BrowserWindow hook anchor in bundle'')"
  by (simp add: patchBundleSource_def Let_def)

lemma patch_unverified:
  "\<not> str_includes src PATCH_MARKER \<Longrightarrow> str_includes src themeSourceAnchor \<Longrightarrow>
   str_includes (replace src themeSourceAnchor helperCode) windowCreationAnchor \<Longrightarrow>
   \<not> (str_includes (replace (replace src themeSourceAnchor helperCode)
                       windowCreationAnchor windowCreationHook) PATCH_MARKER \<and>
      str_includes (replace (replace src themeSourceAnchor helperCode)
                       windowCreationAnchor windowCreationHook) ''cdpApplyDarcula(y)'') \<Longrightarrow>
     patchBundleSource src = Inl (Error ''Patch verification failed'')"
  by (simp add: patchBundleSource_def Let_def)

lemma patch_applied:
  "\<not> str_includes src PATCH_MARKER \<Longrightarrow> str_includes src themeSourceAnchor \<Longrightarrow>
   str_includes (replace src themeSourceAnchor helperCode) windowCreationAnchor \<Longrightarrow>
   str_includes (replace (replace src themeSourceAnchor helperCode)
                       windowCreationAnchor windowCreationHook) PATCH_MARKER \<Longrightarrow>
   str_includes (replace (replace src themeSourceAnchor helperCode)
                       windowCreationAnchor windowCreationHook) ''cdpApplyDarcula(y)'' \<Longrightarrow>
     patchBundleSource src =
       Inr \<lparr>sourceText = replace (replace src themeSourceAnchor helperCode)
                            windowCreationAnchor windowCreationHook,
            alreadyPatched = False\<rparr>"
  by (simp add: patchBundleSource_def Let_def)

lemma patch_success_cases:
  assumes "patchBundleSource src = Inr r"
  shows "(str_includes src PATCH_MARKER \<and> r = \<lparr>sourceText = src, alreadyPatched = True\<rparr>) \<or>
         (\<not> str_includes src PATCH_MARKER \<and> str_includes src themeSourceAnchor \<and>
          str_includes (replace src themeSourceAnchor helperCode) windowCreationAnchor \<and>
          str_includes (sourceText r) PATCH_MARKER \<and>
          str_includes (sourceText r) ''cdpApplyDarcula(y)'' \<and>
          r = \<lparr>sourceText = replace (replace src themeSourceAnchor helperCode)
                                windowCreationAnchor windowCreationHook,
                 alreadyPatched = False\<rparr>)"
proof (cases "str_includes src PATCH_MARKER")
  case True
  with assms show ?thesis by (simp add: patch_marked)
next
  case m: False
  show ?thesis
  proof (cases "str_includes src themeSourceAnchor")
    case False
    with m assms show ?thesis by (simp add: patch_no_anchor1)
  next
    case a1: True
    show ?thesis
    proof (cases "str_includes (replace src themeSourceAnchor helperCode) windowCreationAnchor")
      case False
      with m a1 assms show ?thesis by (simp add: patch_no_anchor2)
    next
      case a2: True
      let ?t = "replace (replace src themeSourceAnchor helperCode)
                  windowCreationAnchor windowCreationHook"
      show ?thesis
      proof (cases "str_includes ?t PATCH_MARKER \<and> str_includes ?t ''cdpApplyDarcula(y)''")
        case False
        with m a1 a2 assms show ?thesis by (simp add: patch_unverified)
      next
        case True
        with m a1 a2 assms have "r = \<lparr>sourceText = ?t, alreadyPatched = False\<rparr>"
          by (simp add: patch_applied)
        with m a1 a2 True show ?thesis by simp
      qed
    qed
  qed
qed

text \<open>
  Claim C3. Whenever \<open>patchBundleSource\<close> returns, applying it to the text it returned
  returns that same text, flagged as already patched: the second application finds the
  marker and inserts nothing.
\<close>

theorem patch_idempotent:
  "patchBundleSource src = Inr r \<Longrightarrow>
     patchBundleSource (sourceText r) = Inr \<lparr>sourceText = sourceText r, alreadyPatched = True\<rparr>"
  using patch_success_cases[of src r] by (auto simp: patch_marked)

text \<open>
  Claim C6. For a text without the marker, \<open>patchBundleSource\<close> throws the nativeTheme
  anchor error when the first anchor is absent, the BrowserWindow hook anchor error
  (the spec's AnchorNotFoundError, both) when the second anchor is absent from the
  text after the first replacement, and the verification error (PatchVerificationError)
  when the final text lacks the marker or the helper call; whenever it returns, the
  text it returns holds both.
\<close>

theorem patch_failures:
  assumes "\<not> str_includes src PATCH_MARKER"
  shows
    "(\<not> str_includes src themeSourceAnchor \<longrightarrow>
        patchBundleSource src = Inl (Error ''Could not find nativeTheme anchor in bundle'')) \<and>
     (str_includes src themeSourceAnchor \<and>
      \<not> str_includes (replace src themeSourceAnchor helperCode) windowCreationAnchor \<longrightarrow>
        patchBundleSource src = Inl (Error ''Could not find BrowserWindow hook anchor in bundle'')) \<and>
     (str_includes src themeSourceAnchor \<and>
      str_includes (replace src themeSourceAnchor helperCode) windowCreationAnchor \<and>
      \<not> (str_includes (replace (replace src themeSourceAnchor helperCode)
                          windowCreationAnchor windowCreationHook) PATCH_MARKER \<and>
         str_includes (replace (replace src themeSourceAnchor helperCode)
                          windowCreationAnchor windowCreationHook) ''cdpApplyDarcula(y)'') \<longrightarrow>
        patchBundleSource src = Inl (Error ''Patch verification failed'')) \<and>
     (\<forall>r. patchBundleSource src = Inr r \<longrightarrow>
        str_includes (sourceText r) PATCH_MARKER \<and>
        str_includes (sourceText r) ''cdpApplyDarcula(y)'')"
  using assms patch_no_anchor1[of src] patch_no_anchor2[of src] patch_unverified[of src]
    patch_success_cases[of src]
  by blast

text \<open>The patch evaluated on the sample bundle.\<close>


lemma indexOf_absent_char: "c \<in> set p \<Longrightarrow> c \<notin> set s \<Longrightarrow> indexOf s p = None"
proof (rule ccontr)
  assume c: "c \<in> set p" "c \<notin> set s" and "indexOf s p \<noteq> None"
  then obtain i where "indexOf s p = Some i" by auto
  from indexOf_Some[OF this] have "set p \<subseteq> set s"
    by (metis Un_upper1 Un_upper2 set_append subset_trans)
  with c show False by auto
qed

lemma indexOf_prefix: "indexOf (p @ y) p = Some 0"
proof (cases "p @ y")
  case Nil
  then show ?thesis by simp
next
  case (Cons a list)
  have "prefix p (p @ y)" by simp
  with Cons show ?thesis by simp
qed

lemma indexOf_after:
  assumes "last x \<notin> set p" and "c \<in> set p" and "c \<notin> set x"
  shows "indexOf (x @ p @ y) p = Some (length x)"
  using assms
proof (induction x)
  case Nil
  then show ?case by (simp add: indexOf_prefix)
next
  case (Cons d x)
  have np: "\<not> prefix p (d # x @ p @ y)"
  proof
    assume "prefix p (d # x @ p @ y)"
    then have "prefix p ((d # x) @ p @ y)" by simp
    then have "prefix p (d # x) \<or> prefix (d # x) p"
      by (metis prefix_append prefix_same_cases prefix_order.order_refl prefixI)
    then show False
    proof
      assume "prefix p (d # x)"
      then have "set p \<subseteq> set (d # x)" by (rule set_mono_prefix)
      with Cons.prems show False by auto
    next
      assume "prefix (d # x) p"
      then have "set (d # x) \<subseteq> set p" by (rule set_mono_prefix)
      moreover have "last (d # x) \<in> set (d # x)" by (rule last_in_set) simp
      ultimately show False using Cons.prems by auto
    qed
  qed
  show ?case
  proof (cases "x = []")
    case True
    with np show ?thesis by (simp add: indexOf_prefix)
  next
    case False
    with Cons.prems have "last x \<notin> set p" "c \<notin> set x" by auto
    from Cons.IH[OF this(1) Cons.prems(2) this(2)] np show ?thesis by simp
  qed
qed

lemma set_quote_char: "set (quote_char c) \<subseteq> insert c (set (CHR 0x22 # CHR 0x5C # ''btnfru0123456789abcdef''))"
proof -
  have "hex_digit n \<in> set ''0123456789abcdef''" for n
    unfolding hex_digit_def by (rule nth_mem) simp
  then show ?thesis
    by (auto simp: quote_char_def)
qed

lemma set_quote_string:
  "set (quote_string s) \<subseteq> set s \<union> set (CHR 0x22 # CHR 0x5C # ''btnfru0123456789abcdef'')"
  using set_quote_char by (fastforce simp: quote_string_def)


lemma helperCode_chars: "CHR ''&'' \<notin> set helperCode" "last helperCode = CHR ''}''"
proof -
  have "CHR ''&'' \<notin> set DARCULA_CSS"
    by (simp add: DARCULA_CSS_def PATCH_MARKER_def)
  with set_quote_string[of DARCULA_CSS] have "CHR ''&'' \<notin> set (quote_string DARCULA_CSS)"
    by auto
  then show "CHR ''&'' \<notin> set helperCode"
    by (simp add: helperCode_def themeSourceAnchor_def)
  show "last helperCode = CHR ''}''"
    by (simp add: helperCode_def)
qed

lemma replacements_literal:
  "CHR ''$'' \<notin> set helperCode" "CHR ''$'' \<notin> set windowCreationHook"
proof -
  have "CHR ''$'' \<notin> set DARCULA_CSS"
    by (simp add: DARCULA_CSS_def PATCH_MARKER_def)
  with set_quote_string[of DARCULA_CSS] have "CHR ''$'' \<notin> set (quote_string DARCULA_CSS)"
    by auto
  then show "CHR ''$'' \<notin> set helperCode"
    by (simp add: helperCode_def themeSourceAnchor_def)
  show "CHR ''$'' \<notin> set windowCreationHook"
    by (simp add: windowCreationHook_def)
qed

lemma helperCode_marker: "\<exists>a b. helperCode = a @ PATCH_MARKER @ b"
proof -
  obtain body where b: "DARCULA_CSS = PATCH_MARKER @ body"
    by (simp add: DARCULA_CSS_def)
  have q: "concat (map quote_char PATCH_MARKER) = PATCH_MARKER"
    by (simp add: PATCH_MARKER_def quote_char_def)
  have "\<exists>tail. helperCode = themeSourceAnchor @ ''const cdpDarculaCss='' @ quote_string DARCULA_CSS @ tail"
    unfolding helperCode_def by (rule exI, rule refl)
  then obtain tail where
    "helperCode = themeSourceAnchor @ ''const cdpDarculaCss='' @ quote_string DARCULA_CSS @ tail"
    by blast
  then have "helperCode = (themeSourceAnchor @ ''const cdpDarculaCss='' @ [CHR 0x22]) @ PATCH_MARKER @
      (concat (map quote_char body) @ [CHR 0x22] @ tail)"
    by (simp add: quote_string_def b q)
  then show ?thesis by blast
qed

lemma patch_sample:
  "patchBundleSource sample_bundle =
     Inr \<lparr>sourceText = helperCode @ windowCreationHook @ themeSourceAnchor @ windowCreationAnchor,
          alreadyPatched = False\<rparr>"
proof -
  let ?rest = "themeSourceAnchor @ windowCreationAnchor"
  have m: "\<not> str_includes sample_bundle PATCH_MARKER"
  proof -
    have "CHR ''/'' \<in> set PATCH_MARKER" by (simp add: PATCH_MARKER_def)
    moreover have "CHR ''/'' \<notin> set sample_bundle"
      by (simp add: sample_bundle_def themeSourceAnchor_def windowCreationAnchor_def)
    ultimately show ?thesis by (simp add: str_includes_def indexOf_absent_char)
  qed
  have i1: "indexOf sample_bundle themeSourceAnchor = Some 0"
    unfolding sample_bundle_def by (rule indexOf_prefix)
  have r1: "replace sample_bundle themeSourceAnchor helperCode = helperCode @ windowCreationAnchor @ ?rest"
    using i1 by (simp add: replace_def) (simp add: sample_bundle_def)
  have i2: "indexOf (helperCode @ windowCreationAnchor @ ?rest) windowCreationAnchor = Some (length helperCode)"
  proof (rule indexOf_after)
    show "last helperCode \<notin> set windowCreationAnchor"
      by (simp add: helperCode_chars windowCreationAnchor_def)
    show "CHR ''&'' \<in> set windowCreationAnchor" by (simp add: windowCreationAnchor_def)
    show "CHR ''&'' \<notin> set helperCode" by (rule helperCode_chars)
  qed
  have r2: "replace (helperCode @ windowCreationAnchor @ ?rest) windowCreationAnchor windowCreationHook
      = helperCode @ windowCreationHook @ ?rest"
    using i2 by (simp add: replace_def)
  have v1: "str_includes (helperCode @ windowCreationHook @ ?rest) PATCH_MARKER"
  proof -
    from helperCode_marker obtain a b where "helperCode = a @ PATCH_MARKER @ b" by blast
    then have "helperCode @ windowCreationHook @ ?rest = a @ PATCH_MARKER @ (b @ windowCreationHook @ ?rest)"
      by simp
    then show ?thesis unfolding str_includes_iff by blast
  qed
  have v2: "str_includes (helperCode @ windowCreationHook @ ?rest) ''cdpApplyDarcula(y)''"
  proof -
    have "windowCreationHook = ''this.installNativeContextMenu(y),l&&this.installLiquidGlass(y,u),'' @
        ''cdpApplyDarcula(y)'' @ '',!U.app.isPackaged''"
      by (simp add: windowCreationHook_def)
    then have "helperCode @ windowCreationHook @ ?rest =
        (helperCode @ ''this.installNativeContextMenu(y),l&&this.installLiquidGlass(y,u),'') @
        ''cdpApplyDarcula(y)'' @ ('',!U.app.isPackaged'' @ ?rest)"
      by simp
    then show ?thesis unfolding str_includes_iff by blast
  qed
  have "str_includes sample_bundle themeSourceAnchor"
    using i1 by (simp add: str_includes_def)
  moreover have "str_includes (replace sample_bundle themeSourceAnchor helperCode) windowCreationAnchor"
    using i2 r1 by (simp add: str_includes_def)
  ultimately show ?thesis
    using patch_applied[of sample_bundle] m r1 r2 v1 v2 by simp
qed

subsection \<open>Occurrences of a substring around a replacement\<close>

lemma nth_mid:
  assumes "length x \<le> k" and "k < length x + length m"
  shows "(x @ m @ y) ! k \<in> set m"
proof -
  from assms have lt: "k - length x < length m" by linarith
  from assms(1) have "\<not> k < length x" by simp
  then have "(x @ m @ y) ! k = (m @ y) ! (k - length x)"
    by (simp only: nth_append if_False)
  also from lt have "\<dots> = m ! (k - length x)"
    by (simp only: nth_append if_True)
  finally show ?thesis using lt by simp
qed

lemma occurrence_before:
  assumes "x @ m @ y = a @ b" and "length x + length m \<le> length a"
  shows "\<exists>z. a = x @ m @ z"
proof -
  have "a = take (length a) (a @ b)" by simp
  also have "\<dots> = take (length a) (x @ m @ y)" using assms(1) by simp
  also have "\<dots> = x @ m @ take (length a - length x - length m) y"
    using assms(2) by simp
  finally show ?thesis by blast
qed

lemma occurrence_after:
  assumes "x @ m @ y = a @ b" and "length a \<le> length x"
  shows "\<exists>z. b = z @ m @ y"
proof -
  have "b = drop (length a) (a @ b)" by simp
  also have "\<dots> = drop (length a) (x @ m @ y)" using assms(1) by simp
  also have "\<dots> = drop (length a) x @ m @ y"
    using assms(2) by simp
  finally show ?thesis by blast
qed

text \<open>
  An occurrence of \<open>m\<close> in \<open>a @ p @ b\<close> lies within \<open>a @ p\<close> or within \<open>b\<close> when the last
  character of \<open>p\<close> does not occur in \<open>m\<close>.
\<close>

lemma occurrence_split:
  assumes eq: "x @ m @ y = a @ p @ b" and p: "p \<noteq> []" and l: "last p \<notin> set m"
  shows "(\<exists>z. a @ p = x @ m @ z) \<or> (\<exists>z. b = z @ m @ y)"
proof -
  let ?k = "length a + length p - 1"
  from p have kp: "?k = length a + (length p - 1)" "length p - 1 < length p"
    by (cases p; simp)+
  have "(a @ p @ b) ! (length a + (length p - 1)) = (p @ b) ! (length p - 1)"
    by (rule nth_append_length_plus)
  also have "\<dots> = p ! (length p - 1)"
    using kp(2) by (simp only: nth_append if_True)
  finally have "(a @ p @ b) ! ?k = last p"
    using p kp(1) by (simp add: last_conv_nth)
  then have k: "(x @ m @ y) ! ?k = last p" by (simp only: eq)
  have "\<not> (length x \<le> ?k \<and> ?k < length x + length m)"
    using nth_mid[of x ?k m y] k l by auto
  then consider "?k < length x" | "length x + length m \<le> ?k" by linarith
  then show ?thesis
  proof cases
    case 1
    with kp have "length (a @ p) \<le> length x" by simp
    with occurrence_after[of x m y "a @ p" b] eq show ?thesis by simp
  next
    case 2
    then have "length x + length m \<le> length (a @ p)" by simp
    with occurrence_before[of x m y "a @ p" b] eq show ?thesis by simp
  qed
qed

text \<open>
  An occurrence of \<open>m\<close> in \<open>c @ p @ d\<close> lies within \<open>c\<close> or within \<open>d\<close> when \<open>m\<close> is no longer
  than \<open>p\<close> and neither its first nor its last character occurs in \<open>p\<close>.
\<close>

lemma occurrence_apart:
  assumes eq: "x @ m @ y = c @ p @ d" and m: "m \<noteq> []"
      and h: "hd m \<notin> set p" and l: "last m \<notin> set p" and len: "length m \<le> length p"
  shows "(\<exists>z. c = x @ m @ z) \<or> (\<exists>z. d = z @ m @ y)"
proof -
  consider "length x + length m \<le> length c" | "length c + length p \<le> length x"
    | "length c \<le> length x" "length x < length c + length p"
    | "length x < length c" "length c < length x + length m"
    by linarith
  then show ?thesis
  proof cases
    case 1
    with occurrence_before[of x m y c "p @ d"] eq show ?thesis by simp
  next
    case 2
    then have "length (c @ p) \<le> length x" by simp
    with occurrence_after[of x m y "c @ p" d] eq show ?thesis by simp
  next
    case 3
    then have "(c @ p @ d) ! length x \<in> set p" by (rule nth_mid)
    moreover have "(x @ m @ y) ! length x = hd m"
      using m by (cases m; simp)
    ultimately show ?thesis using h eq by simp
  next
    case 4
    let ?k = "length x + length m - 1"
    from m have km: "?k = length x + (length m - 1)" "length m - 1 < length m"
      by (cases m; simp)+
    from 4 len km have "length c \<le> ?k" "?k < length c + length p" by linarith+
    then have "(c @ p @ d) ! ?k \<in> set p" by (rule nth_mid)
    moreover have "(x @ m @ y) ! ?k = last m"
    proof -
      have "(x @ m @ y) ! (length x + (length m - 1)) = (m @ y) ! (length m - 1)"
        by (rule nth_append_length_plus)
      also have "\<dots> = m ! (length m - 1)"
        using km(2) by (simp only: nth_append if_True)
      finally show ?thesis using m km(1) by (simp add: last_conv_nth)
    qed
    ultimately show ?thesis using l eq by simp
  qed
qed

lemma helperCode_anchor: "\<exists>extra. helperCode = themeSourceAnchor @ extra"
  unfolding helperCode_def by (rule exI, rule refl)

lemma anchor2_survives:
  assumes "str_includes (a @ themeSourceAnchor @ b) windowCreationAnchor"
  shows "str_includes (a @ helperCode @ b) windowCreationAnchor"
proof -
  from assms obtain x y where eq: "x @ windowCreationAnchor @ y = a @ themeSourceAnchor @ b"
    unfolding str_includes_iff by metis
  from helperCode_anchor obtain extra where e: "helperCode = themeSourceAnchor @ extra" by blast
  have "themeSourceAnchor \<noteq> []" "last themeSourceAnchor \<notin> set windowCreationAnchor"
    by (simp_all add: themeSourceAnchor_def windowCreationAnchor_def)
  from occurrence_split[OF eq this]
  show ?thesis
  proof
    assume "\<exists>z. a @ themeSourceAnchor = x @ windowCreationAnchor @ z"
    then obtain z where "a @ themeSourceAnchor = x @ windowCreationAnchor @ z" by blast
    then have "a @ helperCode @ b = x @ windowCreationAnchor @ (z @ extra @ b)"
      by (simp add: e)
    then show ?thesis unfolding str_includes_iff by blast
  next
    assume "\<exists>z. b = z @ windowCreationAnchor @ y"
    then obtain z where "b = z @ windowCreationAnchor @ y" by blast
    then have "a @ helperCode @ b = (a @ helperCode @ z) @ windowCreationAnchor @ y"
      by simp
    then show ?thesis unfolding str_includes_iff by blast
  qed
qed

lemma marker_survives:
  assumes "str_includes (c @ windowCreationAnchor @ d) PATCH_MARKER"
  shows "str_includes (c @ windowCreationHook @ d) PATCH_MARKER"
proof -
  from assms obtain x y where eq: "x @ PATCH_MARKER @ y = c @ windowCreationAnchor @ d"
    unfolding str_includes_iff by metis
  have "PATCH_MARKER \<noteq> []" "hd PATCH_MARKER \<notin> set windowCreationAnchor"
    "last PATCH_MARKER \<notin> set windowCreationAnchor"
    "length PATCH_MARKER \<le> length windowCreationAnchor"
    by (simp_all add: PATCH_MARKER_def windowCreationAnchor_def)
  from occurrence_apart[OF eq this]
  show ?thesis
  proof
    assume "\<exists>z. c = x @ PATCH_MARKER @ z"
    then obtain z where "c = x @ PATCH_MARKER @ z" by blast
    then have "c @ windowCreationHook @ d = x @ PATCH_MARKER @ (z @ windowCreationHook @ d)"
      by simp
    then show ?thesis unfolding str_includes_iff by blast
  next
    assume "\<exists>z. d = z @ PATCH_MARKER @ y"
    then obtain z where "d = z @ PATCH_MARKER @ y" by blast
    then have "c @ windowCreationHook @ d = (c @ windowCreationHook @ z) @ PATCH_MARKER @ y"
      by simp
    then show ?thesis unfolding str_includes_iff by blast
  qed
qed

lemma hook_call: "str_includes (c @ windowCreationHook @ d) ''cdpApplyDarcula(y)''"
proof -
  have "windowCreationHook = ''this.installNativeContextMenu(y),l&&this.installLiquidGlass(y,u),'' @
      ''cdpApplyDarcula(y)'' @ '',!U.app.isPackaged''"
    by (simp add: windowCreationHook_def)
  then have "c @ windowCreationHook @ d =
      (c @ ''this.installNativeContextMenu(y),l&&this.installLiquidGlass(y,u),'') @
      ''cdpApplyDarcula(y)'' @ ('',!U.app.isPackaged'' @ d)"
    by simp
  then show ?thesis unfolding str_includes_iff by blast
qed

text \<open>
  Claim C10. A text without the patch marker that holds both anchors, however often, is
  patched, and only at the first occurrence of each anchor: the text is
  \<open>a @ anchor @ b\<close> with no occurrence of the first anchor starting inside \<open>a\<close>, the
  helper replaces exactly that occurrence, the intermediate text is
  \<open>c @ anchor' @ d\<close> with no occurrence of the second anchor starting inside \<open>c\<close>, and
  \<open>patchBundleSource\<close> returns \<open>c @ hook @ d\<close>: the hook replaces exactly that
  occurrence, and everything before and after the two first occurrences, later
  occurrences included, is carried over unchanged.
\<close>

theorem patch_first_occurrences:
  assumes nm: "\<not> str_includes src PATCH_MARKER"
      and a1: "str_includes src themeSourceAnchor"
      and a2: "str_includes src windowCreationAnchor"
  shows "\<exists>a b c d.
           src = a @ themeSourceAnchor @ b \<and>
           (\<forall>j < length a. \<not> prefix themeSourceAnchor (drop j src)) \<and>
           a @ helperCode @ b = c @ windowCreationAnchor @ d \<and>
           (\<forall>j < length c. \<not> prefix windowCreationAnchor (drop j (a @ helperCode @ b))) \<and>
           patchBundleSource src =
             Inr \<lparr>sourceText = c @ windowCreationHook @ d, alreadyPatched = False\<rparr>"
proof -
  let ?m = "replace src themeSourceAnchor helperCode"
  from replace_first[OF a1, of helperCode] obtain a b where
    ab: "src = a @ themeSourceAnchor @ b" "?m = a @ helperCode @ b"
        "\<forall>j < length a. \<not> prefix themeSourceAnchor (drop j src)"
    by blast
  from a2 ab(1) have "str_includes (a @ helperCode @ b) windowCreationAnchor"
    by (simp add: anchor2_survives)
  with ab(2) have i2: "str_includes ?m windowCreationAnchor" by simp
  from replace_first[OF i2, of windowCreationHook] obtain c d where
    cd: "?m = c @ windowCreationAnchor @ d"
        "replace ?m windowCreationAnchor windowCreationHook = c @ windowCreationHook @ d"
        "\<forall>j < length c. \<not> prefix windowCreationAnchor (drop j ?m)"
    by blast
  from helperCode_marker obtain u v where "helperCode = u @ PATCH_MARKER @ v" by blast
  then have "c @ windowCreationAnchor @ d = (a @ u) @ PATCH_MARKER @ (v @ b)"
    using ab(2) cd(1) by simp
  then have "str_includes (c @ windowCreationAnchor @ d) PATCH_MARKER"
    unfolding str_includes_iff by blast
  then have v1: "str_includes (c @ windowCreationHook @ d) PATCH_MARKER"
    by (rule marker_survives)
  have v2: "str_includes (c @ windowCreationHook @ d) ''cdpApplyDarcula(y)''"
    by (rule hook_call)
  from patch_applied[OF nm a1 i2] v1 v2 cd(2)
  have r: "patchBundleSource src =
      Inr \<lparr>sourceText = c @ windowCreationHook @ d, alreadyPatched = False\<rparr>"
    by simp
  have e1: "a @ helperCode @ b = c @ windowCreationAnchor @ d" using ab(2) cd(1) by simp
  have e2: "\<forall>j < length c. \<not> prefix windowCreationAnchor (drop j (a @ helperCode @ b))"
    using cd(3) ab(2) by simp
  show ?thesis
    apply (rule exI[of _ a], rule exI[of _ b], rule exI[of _ c], rule exI[of _ d])
    using ab(1) ab(3) e1 e2 r by blast
qed


theorem patch_idempotent_witness:
  "patchBundleSource (helperCode @ windowCreationHook @ themeSourceAnchor @ windowCreationAnchor) =
     Inr \<lparr>sourceText = helperCode @ windowCreationHook @ themeSourceAnchor @ windowCreationAnchor,
          alreadyPatched = True\<rparr>"
  using patch_idempotent[OF patch_sample] by simp

theorem patch_failures_witness:
  "patchBundleSource ''x'' = Inl (Error ''Could not find nativeTheme anchor in bundle'') \<and>
   patchBundleSource themeSourceAnchor =
     Inl (Error ''Could not find BrowserWindow hook anchor in bundle'') \<and>
   str_includes (helperCode @ windowCreationHook @ themeSourceAnchor @ windowCreationAnchor) PATCH_MARKER \<and>
   str_includes (helperCode @ windowCreationHook @ themeSourceAnchor @ windowCreationAnchor)
     ''cdpApplyDarcula(y)''"
proof -
  have x: "\<not> str_includes ''x'' PATCH_MARKER" "\<not> str_includes ''x'' themeSourceAnchor"
    by (simp_all add: str_includes_def PATCH_MARKER_def themeSourceAnchor_def)
  have m: "CHR ''/'' \<in> set PATCH_MARKER" by (simp add: PATCH_MARKER_def)
  have "CHR ''/'' \<notin> set themeSourceAnchor" by (simp add: themeSourceAnchor_def)
  with m have a: "\<not> str_includes themeSourceAnchor PATCH_MARKER"
    by (simp add: str_includes_def indexOf_absent_char)
  have a1: "str_includes themeSourceAnchor themeSourceAnchor"
    using indexOf_prefix[of themeSourceAnchor "[]"] by (simp add: str_includes_def)
  have r: "replace themeSourceAnchor themeSourceAnchor helperCode = helperCode"
    using indexOf_prefix[of themeSourceAnchor "[]"] by (simp add: replace_def)
  have "CHR ''&'' \<in> set windowCreationAnchor" by (simp add: windowCreationAnchor_def)
  with helperCode_chars(1) have a2: "\<not> str_includes helperCode windowCreationAnchor"
    by (simp add: str_includes_def indexOf_absent_char)
  have s: "\<not> str_includes sample_bundle PATCH_MARKER"
    using patch_sample patch_marked[of sample_bundle] by auto
  from patch_failures[OF x(1)] x(2)
  have 1: "patchBundleSource ''x'' = Inl (Error ''Could not find nativeTheme anchor in bundle'')"
    by blast
  from patch_failures[OF a] a1 a2 r
  have 2: "patchBundleSource themeSourceAnchor =
      Inl (Error ''Could not find BrowserWindow hook anchor in bundle'')"
    by simp
  from patch_failures[OF s] patch_sample
  have 3: "str_includes (helperCode @ windowCreationHook @ themeSourceAnchor @ windowCreationAnchor) PATCH_MARKER \<and>
     str_includes (helperCode @ windowCreationHook @ themeSourceAnchor @ windowCreationAnchor)
       ''cdpApplyDarcula(y)''"
    by simp
  from 1 2 3 show ?thesis by blast
qed

theorem patch_first_occurrences_witness:
  "\<exists>a b c d.
     sample_bundle = a @ themeSourceAnchor @ b \<and>
     (\<forall>j < length a. \<not> prefix themeSourceAnchor (drop j sample_bundle)) \<and>
     a @ helperCode @ b = c @ windowCreationAnchor @ d \<and>
     (\<forall>j < length c. \<not> prefix windowCreationAnchor (drop j (a @ helperCode @ b))) \<and>
     patchBundleSource sample_bundle =
       Inr \<lparr>sourceText = c @ windowCreationHook @ d, alreadyPatched = False\<rparr> \<and>
     c @ windowCreationHook @ d =
       helperCode @ windowCreationHook @ themeSourceAnchor @ windowCreationAnchor"
proof -
  have m: "\<not> str_includes sample_bundle PATCH_MARKER"
  proof -
    have "CHR ''/'' \<in> set PATCH_MARKER" by (simp add: PATCH_MARKER_def)
    moreover have "CHR ''/'' \<notin> set sample_bundle"
      by (simp add: sample_bundle_def themeSourceAnchor_def windowCreationAnchor_def)
    ultimately show ?thesis by (simp add: str_includes_def indexOf_absent_char)
  qed
  have a1: "str_includes sample_bundle themeSourceAnchor"
    unfolding sample_bundle_def by (simp add: str_includes_def indexOf_prefix)
  have "sample_bundle =
      themeSourceAnchor @ windowCreationAnchor @ (themeSourceAnchor @ windowCreationAnchor)"
    by (simp add: sample_bundle_def)
  then have a2: "str_includes sample_bundle windowCreationAnchor"
    unfolding str_includes_iff by blast
  from patch_first_occurrences[OF m a1 a2] obtain a b c d where
    r: "sample_bundle = a @ themeSourceAnchor @ b"
       "\<forall>j < length a. \<not> prefix themeSourceAnchor (drop j sample_bundle)"
       "a @ helperCode @ b = c @ windowCreationAnchor @ d"
       "\<forall>j < length c. \<not> prefix windowCreationAnchor (drop j (a @ helperCode @ b))"
       "patchBundleSource sample_bundle =
          Inr \<lparr>sourceText = c @ windowCreationHook @ d, alreadyPatched = False\<rparr>"
    by blast
  from r(5) patch_sample
  have e: "c @ windowCreationHook @ d =
      helperCode @ windowCreationHook @ themeSourceAnchor @ windowCreationAnchor"
    by simp
  show ?thesis
    apply (rule exI[of _ a], rule exI[of _ b], rule exI[of _ c], rule exI[of _ d])
    using r e by blast
qed


section \<open>The patch command\<close>










section \<open>The traversal as a list of leaves\<close>

lemma collect_walk:
  "\<exists>l. \<forall>acc. walkLeafEntries node pfx collect_leaf acc = Inr (acc @ l)"
  "\<exists>l. \<forall>acc. walk_entries es pfx collect_leaf acc = Inr (acc @ l)"
proof -
  have "(v = collect_leaf \<longrightarrow> (\<exists>l. \<forall>acc. walkLeafEntries node pfx v acc = Inr (acc @ l)))"
    and "(v = collect_leaf \<longrightarrow> (\<exists>l. \<forall>acc. walk_entries es pfx v acc = Inr (acc @ l)))"
    for v and s :: "(string \<times> json) list"
  proof (induction node pfx v s and es pfx v s rule: walkLeafEntries_walk_entries.induct)
    case (1 node pfx visitor s)
    then show ?case by simp
  next
    case (2 pfx visitor s)
    show ?case by simp
  next
    case (3 name entry rest pfx visitor s)
    show ?case
    proof
      assume v: "visitor = collect_leaf"
      have "\<exists>l1. \<forall>acc. (if is_dir entry then walkLeafEntries entry (join_path pfx name) visitor acc
                 else visitor (join_path pfx name) entry acc) = Inr (acc @ l1)"
      proof (cases "is_dir entry")
        case True
        with 3(1) v show ?thesis by simp
      next
        case False
        with v show ?thesis by (simp add: collect_leaf_def)
      qed
      then obtain l1 where l1: "\<And>acc. (if is_dir entry then walkLeafEntries entry (join_path pfx name) visitor acc
                 else visitor (join_path pfx name) entry acc) = Inr (acc @ l1)"
        by blast
      from 3(2)[OF l1[of s]] v obtain l2 where
        l2: "\<And>acc. walk_entries rest pfx visitor acc = Inr (acc @ l2)" by blast
      have "\<forall>acc. walk_entries ((name, entry) # rest) pfx visitor acc = Inr (acc @ (l1 @ l2))"
        using l1 l2 by simp
      then show "\<exists>l. \<forall>acc. walk_entries ((name, entry) # rest) pfx visitor acc = Inr (acc @ l)"
        by blast
    qed
  qed
  then show "\<exists>l. \<forall>acc. walkLeafEntries node pfx collect_leaf acc = Inr (acc @ l)"
    "\<exists>l. \<forall>acc. walk_entries es pfx collect_leaf acc = Inr (acc @ l)"
    by blast+
qed

lemma walk_collect: "walk_entries es pfx collect_leaf acc = Inr (acc @ walked es pfx)"
proof -
  from collect_walk(2)[of es pfx] obtain l where
    l: "\<And>acc. walk_entries es pfx collect_leaf acc = Inr (acc @ l)" by blast
  from l[of "[]"] have "walked es pfx = l" by (simp add: walked_def)
  with l show ?thesis by simp
qed

lemma walked_Nil [simp]: "walked [] pfx = []"
  by (simp add: walked_def)

lemma walked_Cons:
  "walked ((name, entry) # rest) pfx =
     (if is_dir entry then walked (files_of entry) (join_path pfx name)
      else [(join_path pfx name, entry)]) @ walked rest pfx"
proof -
  have "walk_entries ((name, entry) # rest) pfx collect_leaf [] =
      Inr ((if is_dir entry then walked (files_of entry) (join_path pfx name)
            else [(join_path pfx name, entry)]) @ walked rest pfx)"
    by (subst walk_entries.simps) (simp add: walk_collect collect_leaf_def)
  then have "walked ((name, entry) # rest) pfx =
      (if is_dir entry then walked (files_of entry) (join_path pfx name)
            else [(join_path pfx name, entry)]) @ walked rest pfx"
    by (simp only: walked_def[of "(name, entry) # rest"] sum.case)
  then show ?thesis .
qed

text \<open>Induction over the tree of \<open>files\<close> objects, as the traversals descend it.\<close>

lemma files_induct [case_names Nil Cons]:
  assumes "\<And>pfx. Q [] pfx"
    and "\<And>name entry rest pfx.
           (is_dir entry \<Longrightarrow> Q (files_of entry) (join_path pfx name)) \<Longrightarrow> Q rest pfx \<Longrightarrow>
           Q ((name, entry) # rest) pfx"
  shows "Q es pfx"
proof -
  have "(v = collect_leaf \<longrightarrow> Q (files_of node) pfx)" and "(v = collect_leaf \<longrightarrow> Q es pfx)"
    for v node and s :: "(string \<times> json) list"
  proof (induction node pfx v s and es pfx v s rule: walkLeafEntries_walk_entries.induct)
    case (1 node pfx visitor s)
    then show ?case .
  next
    case (2 pfx visitor s)
    show ?case using assms(1) by blast
  next
    case (3 name entry rest pfx visitor s)
    show ?case
    proof
      assume v: "visitor = collect_leaf"
      have a: "is_dir entry \<Longrightarrow> Q (files_of entry) (join_path pfx name)"
        using 3(1) v by blast
      have "\<exists>x. (if is_dir entry then walkLeafEntries entry (join_path pfx name) visitor s
                 else visitor (join_path pfx name) entry s) = Inr x"
        using v walk_collect[of "files_of entry" "join_path pfx name" s]
        by (cases "is_dir entry") (simp_all add: collect_leaf_def)
      then obtain x where "(if is_dir entry then walkLeafEntries entry (join_path pfx name) visitor s
                 else visitor (join_path pfx name) entry s) = Inr x" by blast
      from 3(2)[OF this] v have "Q rest pfx" by blast
      with a show "Q ((name, entry) # rest) pfx" by (rule assms(2))
    qed
  qed
  then show ?thesis by blast
qed

lemma visit_all_append:
  "visit_all v (xs @ ys) s = (case visit_all v xs s of Inl e \<Rightarrow> Inl e | Inr s' \<Rightarrow> visit_all v ys s')"
  by (induction xs arbitrary: s) (auto split: sum.splits)

lemma walk_visit_all: "walk_entries es pfx v s = visit_all v (walked es pfx) s"
proof (induction es pfx arbitrary: s rule: files_induct)
  case (Nil pfx)
  show ?case by simp
next
  case (Cons name entry rest pfx)
  show ?case
    using Cons.IH
    by (cases "is_dir entry") (auto simp: walked_Cons visit_all_append split: sum.splits)
qed

lemma walkLeafEntries_visit_all:
  "walkLeafEntries node pfx v s = visit_all v (walked (files_of node) pfx) s"
  by (simp add: walk_visit_all)

section \<open>The rebuild, step by step\<close>

lemma is_dir_D:
  assumes "is_dir entry"
  shows "entry \<noteq> JNull" and "\<exists>f. get_prop entry ''files'' = Some f \<and> truthy f \<and> files_of entry = own_entries f"
  using assms by (auto simp: is_dir_def files_of_def split: option.splits)

lemma rebuildNode_dir:
  "is_dir entry \<Longrightarrow>
     rebuildNode rt fm entry pfx st =
       (case rebuild_entries rt fm (files_of entry) pfx [] st of
          Inl e \<Rightarrow> Inl e
        | Inr (out_files, st') \<Rightarrow>
            Inr (JObj (assign (own_entries entry) ''files'' (JObj out_files)), st'))"
  using is_dir_D[of entry] by (subst rebuildNode.simps) auto

lemma rebuild_entries_dir:
  "is_dir entry \<Longrightarrow>
     rebuild_entries rt fm ((name, entry) # rest) pfx acc st =
       (case rebuild_entries rt fm (files_of entry) (join_path pfx name) [] st of
          Inl e \<Rightarrow> Inl e
        | Inr (out_files, st') \<Rightarrow>
            rebuild_entries rt fm rest pfx
              (assign acc name (JObj (assign (own_entries entry) ''files'' (JObj out_files)))) st')"
  by (subst rebuild_entries.simps) (simp add: rebuildNode_dir Let_def split: sum.splits)

lemma rebuild_entries_null:
  "\<not> is_dir entry \<Longrightarrow> entry = JNull \<Longrightarrow>
     rebuild_entries rt fm ((name, entry) # rest) pfx acc st = Inl TypeError"
  by (subst rebuild_entries.simps) (simp add: Let_def)

lemma rebuild_entries_unpacked:
  "\<not> is_dir entry \<Longrightarrow> is_unpacked entry \<Longrightarrow>
     rebuild_entries rt fm ((name, entry) # rest) pfx acc st =
       rebuild_entries rt fm rest pfx (assign acc name (JObj (own_entries entry))) st"
  by (subst rebuild_entries.simps) (auto simp: Let_def is_unpacked_def)

lemma rebuild_entries_missing:
  "\<not> is_dir entry \<Longrightarrow> entry \<noteq> JNull \<Longrightarrow> \<not> is_unpacked entry \<Longrightarrow> fm (join_path pfx name) = None \<Longrightarrow>
     rebuild_entries rt fm ((name, entry) # rest) pfx acc st =
       Inl (Error (''Missing data for file: '' @ join_path pfx name))"
  by (subst rebuild_entries.simps) (simp add: Let_def is_unpacked_def)

lemma rebuild_entries_packed:
  "\<not> is_dir entry \<Longrightarrow> entry \<noteq> JNull \<Longrightarrow> \<not> is_unpacked entry \<Longrightarrow> fm (join_path pfx name) = Some b \<Longrightarrow>
     rebuild_entries rt fm ((name, entry) # rest) pfx acc st =
       rebuild_entries rt fm rest pfx (assign acc name (relaid_entry rt entry (runningOffset st) b))
         (st\<lparr>chunks := chunks st @ [b], runningOffset := runningOffset st + length b\<rparr>)"
  by (subst rebuild_entries.simps) (simp add: Let_def is_unpacked_def relaid_entry_def)

text \<open>The case analysis of one step of the loop, for a step that does not throw.\<close>

lemma rebuild_entries_Cons_cases:
  assumes "rebuild_entries rt fm ((name, entry) # rest) pfx acc st = Inr (out, st')"
  obtains (dir) out_files st1 where "is_dir entry"
      "rebuild_entries rt fm (files_of entry) (join_path pfx name) [] st = Inr (out_files, st1)"
      "rebuild_entries rt fm rest pfx
         (assign acc name (JObj (assign (own_entries entry) ''files'' (JObj out_files)))) st1 = Inr (out, st')"
  | (unpacked) "\<not> is_dir entry" "is_unpacked entry"
      "rebuild_entries rt fm rest pfx (assign acc name (JObj (own_entries entry))) st = Inr (out, st')"
  | (packed) b where "\<not> is_dir entry" "entry \<noteq> JNull" "\<not> is_unpacked entry" "fm (join_path pfx name) = Some b"
      "rebuild_entries rt fm rest pfx (assign acc name (relaid_entry rt entry (runningOffset st) b))
         (st\<lparr>chunks := chunks st @ [b], runningOffset := runningOffset st + length b\<rparr>) = Inr (out, st')"
proof (cases "is_dir entry")
  case True
  with assms show ?thesis
    by (auto simp: rebuild_entries_dir split: sum.splits intro: dir)
next
  case nd: False
  show ?thesis
  proof (cases "is_unpacked entry")
    case True
    with nd assms show ?thesis by (auto simp: rebuild_entries_unpacked intro: unpacked)
  next
    case nu: False
    show ?thesis
    proof (cases "entry = JNull")
      case True
      with nd assms show ?thesis by (simp add: rebuild_entries_null)
    next
      case nn: False
      show ?thesis
      proof (cases "fm (join_path pfx name)")
        case None
        with nd nu nn assms show ?thesis by (simp add: rebuild_entries_missing)
      next
        case (Some b)
        with nd nu nn assms show ?thesis by (auto simp: rebuild_entries_packed intro: packed)
      qed
    qed
  qed
qed

lemma packed_data_append: "packed_data fm (xs @ ys) = packed_data fm xs @ packed_data fm ys"
  by (induction xs) (auto split: option.splits)

lemma rebuild_chunks:
  "rebuild_entries rt fm es pfx acc st = Inr (out, st') \<Longrightarrow>
     chunks st' = chunks st @ packed_data fm (walked es pfx) \<and>
     runningOffset st' = runningOffset st + length (concat (packed_data fm (walked es pfx)))"
proof (induction es pfx arbitrary: acc st out st' rule: files_induct)
  case (Nil pfx)
  then show ?case by simp
next
  case (Cons name entry rest pfx)
  from Cons.prems show ?case
  proof (cases rule: rebuild_entries_Cons_cases)
    case (dir out_files st1)
    from Cons.IH(1)[OF dir(1,2)] Cons.IH(2)[OF dir(3)] dir(1)
    show ?thesis by (simp add: walked_Cons packed_data_append)
  next
    case unpacked
    from Cons.IH(2)[OF unpacked(3)] unpacked(1,2)
    show ?thesis by (simp add: walked_Cons)
  next
    case (packed b)
    from Cons.IH(2)[OF packed(5)] packed(1-4)
    show ?thesis by (simp add: walked_Cons)
  qed
qed

lemma block_size_pos: "0 < INTEGRITY_BLOCK_SIZE"
  by (simp add: INTEGRITY_BLOCK_SIZE_def)

lemma integrity_blocks_chunks:
  "integrity_blocks rt b off acc =
     acc @ map (sha256 rt) (fixed_chunks INTEGRITY_BLOCK_SIZE (drop off b))"
proof (induction rt b off acc rule: integrity_blocks.induct)
  case (1 rt b off acc)
  show ?case
  proof (cases "off < length b")
    case True
    have s: "slice b (int off) (int (min (off + INTEGRITY_BLOCK_SIZE) (length b)))
        = take INTEGRITY_BLOCK_SIZE (drop off b)"
      using True by (simp only: slice_nonneg) (simp add: min_def)
    have d: "drop INTEGRITY_BLOCK_SIZE (drop off b) = drop (off + INTEGRITY_BLOCK_SIZE) b"
      by (simp add: add.commute)
    have f: "fixed_chunks INTEGRITY_BLOCK_SIZE (drop off b) =
        take INTEGRITY_BLOCK_SIZE (drop off b) # fixed_chunks INTEGRITY_BLOCK_SIZE (drop (off + INTEGRITY_BLOCK_SIZE) b)"
      using True block_size_pos by (subst fixed_chunks.simps) (simp add: d del: drop_drop)
    have "integrity_blocks rt b off acc =
        integrity_blocks rt b (off + INTEGRITY_BLOCK_SIZE)
          (acc @ [sha256 rt (take INTEGRITY_BLOCK_SIZE (drop off b))])"
      using True by (subst integrity_blocks.simps) (simp only: s if_True)
    with 1[OF True] show ?thesis by (simp only: s f) simp
  next
    case False
    then have "integrity_blocks rt b off acc = acc"
      by (subst integrity_blocks.simps) simp
    moreover from False have "fixed_chunks INTEGRITY_BLOCK_SIZE (drop off b) = []"
      by (subst fixed_chunks.simps) simp
    ultimately show ?thesis by simp
  qed
qed

lemma computeEntryIntegrity_eq:
  "computeEntryIntegrity rt b =
     JObj [(''algorithm'', JStr ''SHA256''),
           (''hash'', JStr (sha256 rt b)),
           (''blockSize'', JNum (int INTEGRITY_BLOCK_SIZE)),
           (''blocks'', JArr (map (\<lambda>c. JStr (sha256 rt c)) (fixed_chunks INTEGRITY_BLOCK_SIZE b)))]"
  by (simp add: computeEntryIntegrity_def integrity_blocks_chunks comp_def)

lemma String_nat_digits: "set (String_nat n) \<subseteq> set ''0123456789''"
proof (induction n rule: String_nat.induct)
  case (1 n)
  have d: "digit_char k \<in> set ''0123456789''" if "k < 10" for k
    unfolding digit_char_def using that by (intro nth_mem) simp
  show ?case
  proof (cases "n < 10")
    case True
    then show ?thesis using d[of n] by (subst String_nat.simps) simp
  next
    case False
    with 1 d[of "n mod 10"] show ?thesis by (subst String_nat.simps) simp
  qed
qed


lemma index_key_neq:
  assumes "s \<noteq> []" and "hd s \<notin> set ''0123456789''"
  shows "String_nat n \<noteq> s"
proof
  assume "String_nat n = s"
  with String_nat_digits[of n] have "set s \<subseteq> set ''0123456789''" by simp
  moreover from assms(1) have "hd s \<in> set s" by (rule hd_in_set)
  ultimately show False using assms(2) by blast
qed

lemma map_of_indices:
  assumes "s \<noteq> []" and "hd s \<notin> set ''0123456789''"
  shows "map_of (zip (map String_nat ns) vs) s = None"
proof -
  have "s \<notin> set (map String_nat ns)" using index_key_neq[OF assms] by auto
  then have "s \<notin> fst ` set (zip (map String_nat ns) vs)"
    by (auto dest: set_zip_leftD)
  then show ?thesis by (simp add: map_of_eq_None_iff)
qed

lemma map_of_own_entries:
  assumes "s \<noteq> []" and "hd s \<notin> set ''0123456789''"
  shows "map_of (own_entries entry) s = get_prop entry s"
proof (cases entry)
  case (JStr x)
  then show ?thesis by (simp only: own_entries.simps get_prop.simps map_of_indices[OF assms])
next
  case (JArr x)
  then show ?thesis by (simp only: own_entries.simps get_prop.simps map_of_indices[OF assms])
qed simp_all

lemma map_of_assign:
  "k \<noteq> ''__proto__'' \<Longrightarrow> map_of (assign kvs k v) k' = (if k' = k then Some v else map_of kvs k')"
  by (simp add: assign_def update_conv')

lemma relaid_entry_props:
  "get_prop (relaid_entry rt entry n b) ''offset'' = Some (JStr (String_nat n))"
  "get_prop (relaid_entry rt entry n b) ''size'' = Some (JNum (int (length b)))"
  "get_prop (relaid_entry rt entry n b) ''integrity'' = Some (computeEntryIntegrity rt b)"
  "get_prop (relaid_entry rt entry n b) ''files'' = get_prop entry ''files''"
  "get_prop (relaid_entry rt entry n b) ''unpacked'' = get_prop entry ''unpacked''"
proof -
  have f: "map_of (own_entries entry) ''files'' = get_prop entry ''files''"
    by (rule map_of_own_entries) simp_all
  have u: "map_of (own_entries entry) ''unpacked'' = get_prop entry ''unpacked''"
    by (rule map_of_own_entries) simp_all
  show "get_prop (relaid_entry rt entry n b) ''offset'' = Some (JStr (String_nat n))"
    "get_prop (relaid_entry rt entry n b) ''size'' = Some (JNum (int (length b)))"
    "get_prop (relaid_entry rt entry n b) ''integrity'' = Some (computeEntryIntegrity rt b)"
    by (simp_all add: relaid_entry_def map_of_assign)
  show "get_prop (relaid_entry rt entry n b) ''files'' = get_prop entry ''files''"
    by (simp add: relaid_entry_def map_of_assign f)
  show "get_prop (relaid_entry rt entry n b) ''unpacked'' = get_prop entry ''unpacked''"
    by (simp add: relaid_entry_def map_of_assign u)
qed

lemma truthy_relaid [simp]: "truthy (relaid_entry rt entry n b)"
  by (simp add: relaid_entry_def)

lemma relaid_entry_leaf:
  "\<not> is_dir entry \<Longrightarrow> entry \<noteq> JNull \<Longrightarrow> \<not> is_dir (relaid_entry rt entry n b)"
  "is_unpacked (relaid_entry rt entry n b) = is_unpacked entry"
proof -
  show "is_unpacked (relaid_entry rt entry n b) = is_unpacked entry"
    by (simp only: is_unpacked_def relaid_entry_props)
  assume nd: "\<not> is_dir entry" and nn: "entry \<noteq> JNull"
  have "get_prop entry ''files'' = None \<or> (\<exists>f. get_prop entry ''files'' = Some f \<and> \<not> truthy f)"
  proof (cases "get_prop entry ''files''")
    case None
    then show ?thesis by simp
  next
    case (Some f)
    then obtain kvs where "entry = JObj kvs" by (cases entry) simp_all
    with nd Some show ?thesis by (simp add: is_dir_def)
  qed
  then show "\<not> is_dir (relaid_entry rt entry n b)"
    unfolding is_dir_def relaid_entry_props(4) by auto
qed

lemma unpacked_is_obj: "is_unpacked entry \<Longrightarrow> JObj (own_entries entry) = entry"
  by (cases entry) (simp_all add: is_unpacked_def)

lemma is_dir_assign_files [simp]: "is_dir (JObj (assign kvs ''files'' (JObj out_files)))"
  by (simp add: is_dir_def map_of_assign)

lemma files_of_assign_files [simp]: "files_of (JObj (assign kvs ''files'' (JObj out_files))) = out_files"
  by (simp add: files_of_def map_of_assign)

lemma walked_append: "walked (xs @ ys) pfx = walked xs pfx @ walked ys pfx"
proof (induction xs)
  case Nil
  show ?case by simp
next
  case (Cons x xs)
  obtain name entry where x: "x = (name, entry)" by (cases x)
  from Cons show ?case by (simp add: x walked_Cons)
qed

lemma walked_update_subset:
  "set (walked (AList.update k v kvs) pfx) \<subseteq> set (walked kvs pfx) \<union> set (walked [(k, v)] pfx)"
proof (induction kvs)
  case Nil
  show ?case by simp
next
  case (Cons x kvs)
  obtain name entry where x: "x = (name, entry)" by (cases x)
  show ?case
  proof (cases "name = k")
    case True
    then show ?thesis by (auto simp: x walked_Cons[of k] split: if_splits)
  next
    case False
    with Cons show ?thesis
      by (simp add: x walked_Cons[of name entry]) blast
  qed
qed

lemma walked_assign_subset:
  "set (walked (assign kvs k v) pfx) \<subseteq> set (walked kvs pfx) \<union> set (walked [(k, v)] pfx)"
  using walked_update_subset[of k v kvs pfx] by (auto simp: assign_def)

lemma prefix_concat_chunks:
  assumes "prefix (concat (cs @ [b] @ others)) D"
  shows "length (concat cs) + length b \<le> length D"
    and "take (length b) (drop (length (concat cs)) D) = b"
proof -
  from assms obtain tail where D: "D = concat cs @ b @ concat others @ tail"
    by (auto simp: prefix_def)
  show "length (concat cs) + length b \<le> length D" by (simp add: D)
  show "take (length b) (drop (length (concat cs)) D) = b" by (simp add: D)
qed

lemma rebuild_good:
  "rebuild_entries rt fm es pfx acc st = Inr (out, st') \<Longrightarrow>
   runningOffset st = length (concat (chunks st)) \<Longrightarrow>
   prefix (concat (chunks st')) D \<Longrightarrow>
   (\<forall>x \<in> set (walked acc pfx). leaf_good rt D (snd x)) \<Longrightarrow>
   (\<forall>x \<in> set (walked out pfx). leaf_good rt D (snd x))"
proof (induction es pfx arbitrary: acc st out st' rule: files_induct)
  case (Nil pfx)
  then show ?case by simp
next
  case (Cons name entry rest pfx)
  note inv = Cons.prems(2) and D = Cons.prems(3) and acc = Cons.prems(4)
  from Cons.prems(1) show ?case
  proof (cases rule: rebuild_entries_Cons_cases)
    case (dir out_files st1)
    let ?sub = "JObj (assign (own_entries entry) ''files'' (JObj out_files))"
    from rebuild_chunks[OF dir(2)] inv
    have inv1: "runningOffset st1 = length (concat (chunks st1))" by simp
    from rebuild_chunks[OF dir(3)] D have D1: "prefix (concat (chunks st1)) D"
      by (auto simp: prefix_def)
    have "\<forall>x \<in> set (walked out_files (join_path pfx name)). leaf_good rt D (snd x)"
      by (rule Cons.IH(1)[OF dir(1,2) inv D1]) simp
    then have sub: "\<forall>x \<in> set (walked [(name, ?sub)] pfx). leaf_good rt D (snd x)"
      by (simp add: walked_Cons)
    have "\<forall>x \<in> set (walked (assign acc name ?sub) pfx). leaf_good rt D (snd x)"
      using walked_assign_subset[of acc name ?sub pfx] acc sub by blast
    from Cons.IH(2)[OF dir(3) inv1 D this] show ?thesis .
  next
    case unpacked
    have "\<forall>x \<in> set (walked [(name, JObj (own_entries entry))] pfx). leaf_good rt D (snd x)"
      using unpacked(1,2) by (simp add: unpacked_is_obj walked_Cons leaf_good_def)
    then have "\<forall>x \<in> set (walked (assign acc name (JObj (own_entries entry))) pfx). leaf_good rt D (snd x)"
      using walked_assign_subset[of acc name "JObj (own_entries entry)" pfx] acc by blast
    from Cons.IH(2)[OF unpacked(3) inv D this] show ?thesis .
  next
    case (packed b)
    let ?v = "relaid_entry rt entry (runningOffset st) b"
    let ?st = "st\<lparr>chunks := chunks st @ [b], runningOffset := runningOffset st + length b\<rparr>"
    have inv1: "runningOffset ?st = length (concat (chunks ?st))" using inv by simp
    from rebuild_chunks[OF packed(5)] D
    have "prefix (concat (chunks st @ [b] @ packed_data fm (walked rest pfx))) D" by simp
    from prefix_concat_chunks[OF this] inv
    have "leaf_good rt D ?v"
      by (auto simp: leaf_good_def relaid_entry_props)
    moreover have "\<not> is_dir ?v" using packed(1,2) by (rule relaid_entry_leaf)
    ultimately have "\<forall>x \<in> set (walked [(name, ?v)] pfx). leaf_good rt D (snd x)"
      by (simp add: walked_Cons)
    then have "\<forall>x \<in> set (walked (assign acc name ?v) pfx). leaf_good rt D (snd x)"
      using walked_assign_subset[of acc name ?v pfx] acc by blast
    from Cons.IH(2)[OF packed(5) inv1 D this] show ?thesis .
  qed
qed

section \<open>Integrity of rebuilt containers\<close>

lemma of_char_char_of_nat: "of_char (char_of (n :: nat)) = n mod 256"
  by (simp add: of_char_of)

lemma uint32le_write:
  assumes "writeUInt32LE p v off = Inr p'"
  shows "length p' = length p" and "uint32le p' off = v"
proof -
  from assms have v: "v < 4294967296" and o: "off + 4 \<le> length p"
    and p': "p' = p[off := char_of v, off + 1 := char_of (v div 256),
                    off + 2 := char_of (v div 65536), off + 3 := char_of (v div 16777216)]"
    by (auto simp: writeUInt32LE_def split: if_splits)
  show "length p' = length p" by (simp add: p')
  have "uint32le p' off = v mod 256 + 256 * (v div 256 mod 256)
      + 65536 * (v div 65536 mod 256) + 16777216 * (v div 16777216 mod 256)"
    using o by (simp add: p' uint32le_def of_char_char_of_nat)
  also have "\<dots> = v"
  proof -
    have a: "v = v mod 256 + 256 * (v div 256)" by simp
    have "v div 256 div 256 = v div 65536" "v div 65536 div 256 = v div 16777216"
      by (simp_all add: div_mult2_eq[symmetric])
    with mod_mult_div_eq[of "v div 256" 256] mod_mult_div_eq[of "v div 65536" 256]
    have b: "v div 256 = v div 256 mod 256 + 256 * (v div 65536)"
      and c: "v div 65536 = v div 65536 mod 256 + 256 * (v div 16777216)"
      by simp_all
    have d: "v div 16777216 mod 256 = v div 16777216" using v by simp
    from a b c d show ?thesis by linarith
  qed
  finally show "uint32le p' off = v" .
qed

lemma uint32le_append: "off + 4 \<le> length p \<Longrightarrow> uint32le (p @ q) off = uint32le p off"
  by (simp add: uint32le_def nth_append)

lemma rebuildNode_cases:
  assumes "rebuildNode rt fm hdr pfx st = Inr (h', st')"
  shows "(is_dir hdr \<and> (\<exists>out. rebuild_entries rt fm (files_of hdr) pfx [] st = Inr (out, st') \<and>
            h' = JObj (assign (own_entries hdr) ''files'' (JObj out)))) \<or>
         (\<not> is_dir hdr \<and> hdr \<noteq> JNull \<and> h' = JObj (own_entries hdr) \<and> st' = st \<and> files_of h' = [] \<and>
            files_of hdr = [])"
proof (cases "is_dir hdr")
  case True
  with assms show ?thesis by (auto simp: rebuildNode_dir split: sum.splits)
next
  case False
  have f: "map_of (own_entries hdr) ''files'' = get_prop hdr ''files''"
    by (rule map_of_own_entries) simp_all
  from assms have nn: "hdr \<noteq> JNull" by (subst (asm) rebuildNode.simps) (auto split: if_splits)
  have nf: "get_prop hdr ''files'' = None \<or> (\<exists>f. get_prop hdr ''files'' = Some f \<and> \<not> truthy f)"
  proof (cases "get_prop hdr ''files''")
    case None
    then show ?thesis by simp
  next
    case (Some g)
    then obtain kvs where "hdr = JObj kvs" by (cases hdr) simp_all
    with False Some show ?thesis by (simp add: is_dir_def)
  qed
  with assms nn have "h' = JObj (own_entries hdr) \<and> st' = st"
    by (subst (asm) rebuildNode.simps) auto
  moreover from nf f have "files_of (JObj (own_entries hdr)) = []"
    by (auto simp: files_of_def)
  moreover from nf have "files_of hdr = []" by (auto simp: files_of_def)
  ultimately show ?thesis using False nn by simp
qed

lemma buildAsar_shape:
  assumes "buildAsar rt hdr fm = Inr buf"
  shows "\<exists>h' st' prelude.
           rebuildNode rt fm hdr [] \<lparr>chunks = [], runningOffset = 0\<rparr> = Inr (h', st') \<and>
           length prelude = 16 \<and> uint32le prelude 12 = length (JSON_stringify rt h') \<and>
           buf = prelude @ JSON_stringify rt h' @ concat (chunks st')"
proof -
  from assms obtain h' st' where
    r: "rebuildNode rt fm hdr [] \<lparr>chunks = [], runningOffset = 0\<rparr> = Inr (h', st')"
    by (cases "rebuildNode rt fm hdr [] \<lparr>chunks = [], runningOffset = 0\<rparr>")
       (auto simp: buildAsar_def)
  let ?H = "JSON_stringify rt h'"
  from assms r obtain p0 where p0: "writeUInt32LE (replicate 16 (CHR 0x00)) 4 0 = Inr p0"
    by (cases "writeUInt32LE (replicate 16 (CHR 0x00)) 4 0") (auto simp: buildAsar_def Let_def)
  from assms r p0 obtain p1 where p1: "writeUInt32LE p0 (length ?H + 8) 4 = Inr p1"
    by (cases "writeUInt32LE p0 (length ?H + 8) 4") (auto simp: buildAsar_def Let_def)
  from assms r p0 p1 obtain p2 where p2: "writeUInt32LE p1 (length ?H + 4) 8 = Inr p2"
    by (cases "writeUInt32LE p1 (length ?H + 4) 8") (auto simp: buildAsar_def Let_def)
  from assms r p0 p1 p2 obtain p3 where p3: "writeUInt32LE p2 (length ?H) 12 = Inr p3"
    by (cases "writeUInt32LE p2 (length ?H) 12") (auto simp: buildAsar_def Let_def)
  from assms r p0 p1 p2 p3 have b: "buf = p3 @ ?H @ concat (chunks st')"
    by (simp add: buildAsar_def Let_def)
  have "length p3 = 16"
    using uint32le_write(1)[OF p0] uint32le_write(1)[OF p1] uint32le_write(1)[OF p2]
      uint32le_write(1)[OF p3] by simp
  with r b uint32le_write(2)[OF p3] show ?thesis by blast
qed

lemma buildAsar_regions:
  assumes "length prelude = 16" and "uint32le prelude 12 = length H" and "buf = prelude @ H @ D"
  shows "uint32le buf 12 = length H" and "take (uint32le buf 12) (drop 16 buf) = H"
    and "drop (16 + uint32le buf 12) buf = D"
proof -
  show u: "uint32le buf 12 = length H"
    using assms by (simp add: uint32le_append)
  show "take (uint32le buf 12) (drop 16 buf) = H" unfolding u using assms(1,3) by simp
  show "drop (16 + uint32le buf 12) buf = D" unfolding u using assms(1,3) by simp
qed

text \<open>
  Claim C2. In every container that \<open>buildAsar\<close> produces, the header region is the
  serialization of the tree that \<open>rebuildNode\<close> returns for the given header and map,
  and in that tree every packed leaf has an offset \<open>n\<close> and a size that
  name the bytes \<open>b\<close> stored for it in the data region (the slice that extraction
  takes), and an integrity record whose \<open>hash\<close> is the digest of \<open>b\<close> and whose
  \<open>blocks\<close> are the digests, in order, of \<open>b\<close> cut into chunks of the block size.
\<close>

theorem buildAsar_integrity:
  assumes "buildAsar rt hdr fm = Inr buf"
  shows "\<exists>h' st'.
           rebuildNode rt fm hdr [] \<lparr>chunks = [], runningOffset = 0\<rparr> = Inr (h', st') \<and>
           take (uint32le buf 12) (drop 16 buf) = JSON_stringify rt h' \<and>
           (\<forall>x \<in> set (leaf_entries h'). \<not> is_unpacked (snd x) \<longrightarrow>
              (\<exists>n b. get_prop (snd x) ''offset'' = Some (JStr (String_nat n)) \<and>
                     get_prop (snd x) ''size'' = Some (JNum (int (length b))) \<and>
                     slice buf (int (16 + uint32le buf 12 + n))
                               (int (16 + uint32le buf 12 + n + length b)) = b \<and>
                     get_prop (snd x) ''integrity'' =
                       Some (JObj [(''algorithm'', JStr ''SHA256''),
                                   (''hash'', JStr (sha256 rt b)),
                                   (''blockSize'', JNum (int INTEGRITY_BLOCK_SIZE)),
                                   (''blocks'', JArr (map (\<lambda>c. JStr (sha256 rt c))
                                      (fixed_chunks INTEGRITY_BLOCK_SIZE b)))])))"
proof -
  from buildAsar_shape[OF assms] obtain h' st' prelude where
    r: "rebuildNode rt fm hdr [] \<lparr>chunks = [], runningOffset = 0\<rparr> = Inr (h', st')"
    and p: "length prelude = 16" "uint32le prelude 12 = length (JSON_stringify rt h')"
    and b: "buf = prelude @ JSON_stringify rt h' @ concat (chunks st')"
    by blast
  let ?D = "concat (chunks st')"
  note reg = buildAsar_regions[OF p b]
  have good: "\<forall>x \<in> set (leaf_entries h'). leaf_good rt ?D (snd x)"
    using rebuildNode_cases[OF r]
  proof (elim disjE conjE exE)
    fix out
    assume o: "rebuild_entries rt fm (files_of hdr) [] [] \<lparr>chunks = [], runningOffset = 0\<rparr> = Inr (out, st')"
      and h: "h' = JObj (assign (own_entries hdr) ''files'' (JObj out))"
    have "\<forall>x \<in> set (walked out []). leaf_good rt ?D (snd x)"
      by (rule rebuild_good[OF o]) simp_all
    then show ?thesis by (simp add: h leaf_entries_def)
  next
    assume "files_of h' = []"
    then show ?thesis by (simp add: leaf_entries_def)
  qed
  have "\<exists>n b. get_prop e ''offset'' = Some (JStr (String_nat n)) \<and>
               get_prop e ''size'' = Some (JNum (int (length b))) \<and>
               slice buf (int (16 + uint32le buf 12 + n))
                         (int (16 + uint32le buf 12 + n + length b)) = b \<and>
               get_prop e ''integrity'' =
                 Some (JObj [(''algorithm'', JStr ''SHA256''),
                             (''hash'', JStr (sha256 rt b)),
                             (''blockSize'', JNum (int INTEGRITY_BLOCK_SIZE)),
                             (''blocks'', JArr (map (\<lambda>c. JStr (sha256 rt c))
                                (fixed_chunks INTEGRITY_BLOCK_SIZE b)))])"
    if g: "leaf_good rt ?D e" and u: "\<not> is_unpacked e" for e
  proof -
    from g u obtain n b where nb: "get_prop e ''offset'' = Some (JStr (String_nat n))"
      "get_prop e ''size'' = Some (JNum (int (length b)))"
      "get_prop e ''integrity'' = Some (computeEntryIntegrity rt b)"
      "n + length b \<le> length ?D" "take (length b) (drop n ?D) = b"
      by (auto simp: leaf_good_def)
    have "slice buf (int (16 + uint32le buf 12 + n)) (int (16 + uint32le buf 12 + n + length b))
        = take (length b) (drop n (drop (16 + uint32le buf 12) buf))"
      by (simp only: slice_nonneg) (simp add: add.commute)
    with nb(5) reg(3) have "slice buf (int (16 + uint32le buf 12 + n))
        (int (16 + uint32le buf 12 + n + length b)) = b" by simp
    with nb(1,2,3) show ?thesis unfolding computeEntryIntegrity_eq by blast
  qed
  with good have "\<forall>x \<in> set (leaf_entries h'). \<not> is_unpacked (snd x) \<longrightarrow>
      (\<exists>n b. get_prop (snd x) ''offset'' = Some (JStr (String_nat n)) \<and>
             get_prop (snd x) ''size'' = Some (JNum (int (length b))) \<and>
             slice buf (int (16 + uint32le buf 12 + n))
                       (int (16 + uint32le buf 12 + n + length b)) = b \<and>
             get_prop (snd x) ''integrity'' =
               Some (JObj [(''algorithm'', JStr ''SHA256''),
                           (''hash'', JStr (sha256 rt b)),
                           (''blockSize'', JNum (int INTEGRITY_BLOCK_SIZE)),
                           (''blocks'', JArr (map (\<lambda>c. JStr (sha256 rt c))
                              (fixed_chunks INTEGRITY_BLOCK_SIZE b)))]))"
    by blast
  with r reg(2) show ?thesis by blast
qed


section \<open>The layout of rebuilt containers\<close>

lemma files_wf_entries: "files_wf node = entries_wf (files_of node)"
  by (subst files_wf.simps) (simp add: entries_wf_def)

lemma entries_wf_Cons:
  "entries_wf ((name, entry) # rest) \<longleftrightarrow>
     name \<noteq> ''__proto__'' \<and> name \<notin> set (map fst rest) \<and>
     (is_dir entry \<longrightarrow> entries_wf (files_of entry)) \<and> entries_wf rest"
proof -
  have "entries_wf ((name, entry) # rest) \<longleftrightarrow>
     name \<noteq> ''__proto__'' \<and> name \<notin> set (map fst rest) \<and>
     (is_dir entry \<longrightarrow> files_wf entry) \<and> entries_wf rest"
    by (auto simp: entries_wf_def)
  then show ?thesis by (simp only: files_wf_entries[of entry])
qed

lemma update_fresh: "k \<notin> set (map fst kvs) \<Longrightarrow> AList.update k v kvs = kvs @ [(k, v)]"
  by (induction kvs) auto

lemma assign_fresh:
  "k \<noteq> ''__proto__'' \<Longrightarrow> k \<notin> set (map fst kvs) \<Longrightarrow> assign kvs k v = kvs @ [(k, v)]"
  by (simp add: assign_def update_fresh)

lemma relaid_append:
  "relaid rt fm (xs @ ys) n =
     relaid rt fm xs n @ relaid rt fm ys (n + length (concat (packed_data fm xs)))"
proof (induction xs arbitrary: n)
  case Nil
  show ?case by simp
next
  case (Cons x xs)
  obtain p e where x: "x = (p, e)" by (cases x)
  show ?case by (simp add: x Cons add.assoc split: option.splits)
qed

lemma rebuild_walked:
  "rebuild_entries rt fm es pfx acc st = Inr (out, st') \<Longrightarrow> entries_wf es \<Longrightarrow>
   set (map fst es) \<inter> set (map fst acc) = {} \<Longrightarrow>
     \<exists>new. out = acc @ new \<and> map fst new = map fst es \<and>
           walked new pfx = relaid rt fm (walked es pfx) (runningOffset st)"
proof (induction es pfx arbitrary: acc st out st' rule: files_induct)
  case (Nil pfx)
  then show ?case by simp
next
  case (Cons name entry rest pfx)
  from Cons.prems(2) have np: "name \<noteq> ''__proto__''" and nr: "name \<notin> set (map fst rest)"
    and wd: "is_dir entry \<Longrightarrow> entries_wf (files_of entry)" and wr: "entries_wf rest"
    by (simp_all add: entries_wf_Cons)
  from Cons.prems(3) have na: "name \<notin> set (map fst acc)"
    and dr: "set (map fst rest) \<inter> set (map fst acc) = {}" by auto
  have fresh: "assign acc name v = acc @ [(name, v)]" for v
    using np na by (rule assign_fresh)
  have dis: "set (map fst rest) \<inter> set (map fst (acc @ [(name, v)])) = {}" for v :: json
    using dr nr by auto
  from Cons.prems(1) show ?case
  proof (cases rule: rebuild_entries_Cons_cases)
    case (dir out_files st1)
    let ?sub = "JObj (assign (own_entries entry) ''files'' (JObj out_files))"
    have "set (map fst (files_of entry)) \<inter> set (map fst ([] :: (string \<times> json) list)) = {}"
      by simp
    from Cons.IH(1)[OF dir(1,2) wd[OF dir(1)] this] obtain sub_new where
      "out_files = [] @ sub_new" "walked sub_new (join_path pfx name)
            = relaid rt fm (walked (files_of entry) (join_path pfx name)) (runningOffset st)"
      by blast
    then have s: "walked out_files (join_path pfx name)
            = relaid rt fm (walked (files_of entry) (join_path pfx name)) (runningOffset st)"
      by simp
    from dir(3) have "rebuild_entries rt fm rest pfx (acc @ [(name, ?sub)]) st1 = Inr (out, st')"
      by (simp add: fresh)
    from Cons.IH(2)[OF this wr dis] obtain new' where
      n: "out = (acc @ [(name, ?sub)]) @ new'" "map fst new' = map fst rest"
         "walked new' pfx = relaid rt fm (walked rest pfx) (runningOffset st1)"
      by blast
    from rebuild_chunks[OF dir(2)]
    have ro: "runningOffset st1 = runningOffset st
        + length (concat (packed_data fm (walked (files_of entry) (join_path pfx name))))"
      by simp
    have "walked ((name, ?sub) # new') pfx
        = relaid rt fm (walked ((name, entry) # rest) pfx) (runningOffset st)"
      using dir(1) s n(3) ro by (simp add: walked_Cons relaid_append)
    with n(1,2) show ?thesis
      by (intro exI[of _ "(name, ?sub) # new'"]) simp
  next
    case unpacked
    from unpacked(3) have "rebuild_entries rt fm rest pfx (acc @ [(name, entry)]) st = Inr (out, st')"
      by (simp add: fresh unpacked_is_obj[OF unpacked(2)])
    from Cons.IH(2)[OF this wr dis] obtain new' where
      n: "out = (acc @ [(name, entry)]) @ new'" "map fst new' = map fst rest"
         "walked new' pfx = relaid rt fm (walked rest pfx) (runningOffset st)"
      by blast
    have "walked ((name, entry) # new') pfx
        = relaid rt fm (walked ((name, entry) # rest) pfx) (runningOffset st)"
      using unpacked(1,2) n(3) by (simp add: walked_Cons)
    with n(1,2) show ?thesis
      by (intro exI[of _ "(name, entry) # new'"]) simp
  next
    case (packed b)
    let ?v = "relaid_entry rt entry (runningOffset st) b"
    let ?st = "st\<lparr>chunks := chunks st @ [b], runningOffset := runningOffset st + length b\<rparr>"
    from packed(5) have "rebuild_entries rt fm rest pfx (acc @ [(name, ?v)]) ?st = Inr (out, st')"
      by (simp add: fresh)
    from Cons.IH(2)[OF this wr dis] obtain new' where
      n: "out = (acc @ [(name, ?v)]) @ new'" "map fst new' = map fst rest"
         "walked new' pfx = relaid rt fm (walked rest pfx) (runningOffset ?st)"
      by blast
    have "\<not> is_dir ?v" using packed(1,2) by (rule relaid_entry_leaf)
    then have "walked ((name, ?v) # new') pfx
        = relaid rt fm (walked ((name, entry) # rest) pfx) (runningOffset st)"
      using packed(1,3,4) n(3) by (simp add: walked_Cons)
    with n(1,2) show ?thesis
      by (intro exI[of _ "(name, ?v) # new'"]) simp
  qed
qed

theorem rebuild_layout:
  assumes "rebuildNode rt fm hdr [] \<lparr>chunks = [], runningOffset = 0\<rparr> = Inr (h', st')"
      and "files_wf hdr"
  shows "leaf_entries h' = relaid rt fm (leaf_entries hdr) 0 \<and>
         chunks st' = packed_data fm (leaf_entries hdr) \<and>
         runningOffset st' = length (concat (packed_data fm (leaf_entries hdr)))"
  using rebuildNode_cases[OF assms(1)]
proof (elim disjE conjE exE)
  fix out
  assume o: "rebuild_entries rt fm (files_of hdr) [] [] \<lparr>chunks = [], runningOffset = 0\<rparr> = Inr (out, st')"
    and h: "h' = JObj (assign (own_entries hdr) ''files'' (JObj out))"
  have "set (map fst (files_of hdr)) \<inter> set (map fst ([] :: (string \<times> json) list)) = {}"
    by simp
  from rebuild_walked[OF o _ this] assms(2) obtain new where
    "out = [] @ new" "walked new [] = relaid rt fm (walked (files_of hdr) [])
       (runningOffset \<lparr>chunks = [], runningOffset = 0\<rparr>)"
    unfolding files_wf_entries by blast
  then have "walked out [] = relaid rt fm (walked (files_of hdr) []) 0"
    by simp
  with rebuild_chunks[OF o] show ?thesis by (simp add: leaf_entries_def h)
next
  assume "files_of h' = []" "files_of hdr = []" "st' = \<lparr>chunks = [], runningOffset = 0\<rparr>"
  then show ?thesis by (simp add: leaf_entries_def)
qed

section \<open>Round trip\<close>

lemma packed_paths_simps [simp]:
  "packed_paths [] = {}"
  "packed_paths ((p, e) # rest) = (if is_unpacked e then packed_paths rest else insert p (packed_paths rest))"
  by (auto simp: packed_paths_def)









section \<open>The program on sample containers\<close>

lemma length_prelude_for [simp]: "length (prelude_for n) = 16"
  by (simp add: prelude_for_def le32_bytes_def)

lemma list_update_numeral:
  "(x # xs)[numeral k := y] = x # xs[pred_numeral k := y]"
  by (simp add: numeral_eq_Suc)

lemma write_prelude:
  assumes "n + 8 < 4294967296"
  shows "\<exists>p0 p1 p2. writeUInt32LE (replicate 16 (CHR 0x00)) 4 0 = Inr p0 \<and>
           writeUInt32LE p0 (n + 8) 4 = Inr p1 \<and> writeUInt32LE p1 (n + 4) 8 = Inr p2 \<and>
           writeUInt32LE p2 n 12 = Inr (prelude_for n)"
proof -
  have r: "replicate 16 (CHR 0x00) = [CHR 0x00, CHR 0x00, CHR 0x00, CHR 0x00, CHR 0x00, CHR 0x00,
      CHR 0x00, CHR 0x00, CHR 0x00, CHR 0x00, CHR 0x00, CHR 0x00, CHR 0x00, CHR 0x00, CHR 0x00, CHR 0x00]"
    by (simp add: numeral_eq_Suc)
  show ?thesis
    using assms unfolding r
    by (simp add: writeUInt32LE_def prelude_for_def le32_bytes_def list_update_numeral)
qed

lemma buildAsar_eval:
  assumes "rebuildNode rt fm hdr [] \<lparr>chunks = [], runningOffset = 0\<rparr> = Inr (h', st')"
      and "length (JSON_stringify rt h') + 8 < 4294967296"
  shows "buildAsar rt hdr fm =
           Inr (prelude_for (length (JSON_stringify rt h')) @ JSON_stringify rt h' @ concat (chunks st'))"
proof -
  from write_prelude[OF assms(2)] obtain p0 p1 p2 where
    "writeUInt32LE (replicate 16 (CHR 0x00)) 4 0 = Inr p0"
    "writeUInt32LE p0 (length (JSON_stringify rt h') + 8) 4 = Inr p1"
    "writeUInt32LE p1 (length (JSON_stringify rt h') + 4) 8 = Inr p2"
    "writeUInt32LE p2 (length (JSON_stringify rt h')) 12 = Inr (prelude_for (length (JSON_stringify rt h')))"
    by blast
  with assms(1) show ?thesis by (simp add: buildAsar_def Let_def)
qed



lemma entries_wf_Nil [simp]: "entries_wf []"
  by (simp add: entries_wf_def)





lemmas json_eval = json_read_def read_atom_def read_key_def join_with_def quote_string_def
  quote_char_def int_text_def decimal_value_def is_digit_def digit_char_def String_nat.simps

lemmas build_eval = rebuildNode.simps rebuild_entries.simps is_dir_def join_path_def assign_def
  computeEntryIntegrity_def integrity_blocks.simps INTEGRITY_BLOCK_SIZE_def slice_def
  ref_digest_def String_nat.simps digit_char_def Let_def






lemma sample_rebuild:
  "rebuildNode ref_runtime sample_map sample_header [] \<lparr>chunks = [], runningOffset = 0\<rparr> =
     Inr (sample_rebuilt_header, \<lparr>chunks = [''abc'', ''de''], runningOffset = 5\<rparr>)"
  by (simp add: build_eval ref_runtime_def sample_header_def sample_map_def sample_rebuilt_header_def)

lemma sample_rebuilt_length: "length (json_text sample_rebuilt_header) = 332"
  by (simp add: sample_rebuilt_header_def json_eval)

lemma sample_build: "buildAsar ref_runtime sample_header sample_map = Inr sample_rebuilt"
  using buildAsar_eval[OF sample_rebuild]
  by (simp add: ref_runtime_def sample_rebuilt_length sample_rebuilt_def)


lemma sample_wf: "files_wf sample_header"
  by (simp add: files_wf_entries entries_wf_Cons sample_header_def files_of_def is_dir_def)









lemma proto_leaves:
  "map fst (leaf_entries proto_header) = [''__proto__'', ''b'', ''dir/__proto__'']"
  by (simp add: leaf_entries_def proto_header_def files_of_def walked_Cons walked_Nil
      is_dir_def join_path_def)

lemma proto_rebuild_ref:
  "rebuildNode ref_runtime proto_map proto_header [] \<lparr>chunks = [], runningOffset = 0\<rparr> =
     Inr (JObj [(''files'', JObj
            [(''b'', JObj [(''size'', JNum 1), (''offset'', JStr ''2''),
                (''integrity'', JObj [(''algorithm'', JStr ''SHA256''), (''hash'', JStr ''digest-1''),
                   (''blockSize'', JNum 4194304), (''blocks'', JArr [JStr ''digest-1''])])]),
             (''dir'', JObj [(''files'', JObj [])])])],
          \<lparr>chunks = [''ab'', ''c''], runningOffset = 3\<rparr>)"
  by (simp add: build_eval proto_header_def proto_map_def ref_runtime_def)

lemma proto_build:
  "buildAsar ref_runtime proto_header proto_map =
     Inr (prelude_for 153 @
          json_text (JObj [(''files'', JObj
            [(''b'', JObj [(''size'', JNum 1), (''offset'', JStr ''2''),
                (''integrity'', JObj [(''algorithm'', JStr ''SHA256''), (''hash'', JStr ''digest-1''),
                   (''blockSize'', JNum 4194304), (''blocks'', JArr [JStr ''digest-1''])])]),
             (''dir'', JObj [(''files'', JObj [])])])]) @
          ''abc'')"
proof -
  have "length (json_text (JObj [(''files'', JObj
            [(''b'', JObj [(''size'', JNum 1), (''offset'', JStr ''2''),
                (''integrity'', JObj [(''algorithm'', JStr ''SHA256''), (''hash'', JStr ''digest-1''),
                   (''blockSize'', JNum 4194304), (''blocks'', JArr [JStr ''digest-1''])])]),
             (''dir'', JObj [(''files'', JObj [])])])])) = 153"
    by (simp add: json_eval)
  with buildAsar_eval[OF proto_rebuild_ref] show ?thesis
    by (simp add: ref_runtime_def)
qed

text \<open>
  Claim C4 fails for entries named \<open>__proto__\<close>: the assignment \<open>out.files[name] = ...\<close>
  then runs the inherited setter and adds no property. The two bytes of the packed
  entry \<open>__proto__\<close> are emitted, and the offset of \<open>b\<close> counts them, but the entry is
  missing from the rebuilt header; the unpacked entry \<open>dir/__proto__\<close> is not copied.
  Extraction visits all three leaves.
\<close>

theorem rebuild_drops_proto:
  "map fst (leaf_entries proto_header) = [''__proto__'', ''b'', ''dir/__proto__''] \<and>
   rebuildNode rt proto_map proto_header [] \<lparr>chunks = [], runningOffset = 0\<rparr> =
     Inr (JObj [(''files'', JObj
            [(''b'', JObj [(''size'', JNum 1), (''offset'', JStr ''2''),
                (''integrity'', JObj [(''algorithm'', JStr ''SHA256''), (''hash'', JStr (sha256 rt ''c'')),
                   (''blockSize'', JNum 4194304), (''blocks'', JArr [JStr (sha256 rt ''c'')])])]),
             (''dir'', JObj [(''files'', JObj [])])])],
          \<lparr>chunks = [''ab'', ''c''], runningOffset = 3\<rparr>) \<and>
   buildAsar ref_runtime proto_header proto_map =
     Inr (prelude_for 153 @
          json_text (JObj [(''files'', JObj
            [(''b'', JObj [(''size'', JNum 1), (''offset'', JStr ''2''),
                (''integrity'', JObj [(''algorithm'', JStr ''SHA256''), (''hash'', JStr ''digest-1''),
                   (''blockSize'', JNum 4194304), (''blocks'', JArr [JStr ''digest-1''])])]),
             (''dir'', JObj [(''files'', JObj [])])])]) @
          ''abc'')"
proof -
  have "rebuildNode rt proto_map proto_header [] \<lparr>chunks = [], runningOffset = 0\<rparr> =
     Inr (JObj [(''files'', JObj
            [(''b'', JObj [(''size'', JNum 1), (''offset'', JStr ''2''),
                (''integrity'', JObj [(''algorithm'', JStr ''SHA256''), (''hash'', JStr (sha256 rt ''c'')),
                   (''blockSize'', JNum 4194304), (''blocks'', JArr [JStr (sha256 rt ''c'')])])]),
             (''dir'', JObj [(''files'', JObj [])])])],
          \<lparr>chunks = [''ab'', ''c''], runningOffset = 3\<rparr>)"
    by (simp add: build_eval proto_header_def proto_map_def)
  with proto_leaves proto_build show ?thesis by simp
qed


lemma sample_leaves:
  "map fst (leaf_entries sample_rebuilt_header) = [''a.txt'', ''dir/b.bin'', ''dir/u'']"
  by (simp add: leaf_entries_def sample_rebuilt_header_def files_of_def walked_Cons walked_Nil
      is_dir_def join_path_def)

theorem buildAsar_integrity_witness:
  "buildAsar ref_runtime sample_header sample_map = Inr sample_rebuilt \<and>
   map fst (leaf_entries sample_rebuilt_header) = [''a.txt'', ''dir/b.bin'', ''dir/u''] \<and>
   (\<exists>h' st'.
      rebuildNode ref_runtime sample_map sample_header [] \<lparr>chunks = [], runningOffset = 0\<rparr> =
        Inr (h', st') \<and>
      h' = sample_rebuilt_header \<and>
      take (uint32le sample_rebuilt 12) (drop 16 sample_rebuilt) = JSON_stringify ref_runtime h' \<and>
      (\<forall>x \<in> set (leaf_entries h'). \<not> is_unpacked (snd x) \<longrightarrow>
         (\<exists>n b. get_prop (snd x) ''offset'' = Some (JStr (String_nat n)) \<and>
                get_prop (snd x) ''size'' = Some (JNum (int (length b))) \<and>
                slice sample_rebuilt (int (16 + uint32le sample_rebuilt 12 + n))
                      (int (16 + uint32le sample_rebuilt 12 + n + length b)) = b \<and>
                get_prop (snd x) ''integrity'' =
                  Some (JObj [(''algorithm'', JStr ''SHA256''),
                              (''hash'', JStr (sha256 ref_runtime b)),
                              (''blockSize'', JNum (int INTEGRITY_BLOCK_SIZE)),
                              (''blocks'', JArr (map (\<lambda>c. JStr (sha256 ref_runtime c))
                                 (fixed_chunks INTEGRITY_BLOCK_SIZE b)))]))))"
proof -
  from buildAsar_integrity[OF sample_build] obtain h' st' where
    r: "rebuildNode ref_runtime sample_map sample_header [] \<lparr>chunks = [], runningOffset = 0\<rparr> =
          Inr (h', st')"
    and t: "take (uint32le sample_rebuilt 12) (drop 16 sample_rebuilt) = JSON_stringify ref_runtime h'"
    and g: "\<forall>x \<in> set (leaf_entries h'). \<not> is_unpacked (snd x) \<longrightarrow>
         (\<exists>n b. get_prop (snd x) ''offset'' = Some (JStr (String_nat n)) \<and>
                get_prop (snd x) ''size'' = Some (JNum (int (length b))) \<and>
                slice sample_rebuilt (int (16 + uint32le sample_rebuilt 12 + n))
                      (int (16 + uint32le sample_rebuilt 12 + n + length b)) = b \<and>
                get_prop (snd x) ''integrity'' =
                  Some (JObj [(''algorithm'', JStr ''SHA256''),
                              (''hash'', JStr (sha256 ref_runtime b)),
                              (''blockSize'', JNum (int INTEGRITY_BLOCK_SIZE)),
                              (''blocks'', JArr (map (\<lambda>c. JStr (sha256 ref_runtime c))
                                 (fixed_chunks INTEGRITY_BLOCK_SIZE b)))]))"
    by blast
  from r sample_rebuild have h: "h' = sample_rebuilt_header" by simp
  from r t g h sample_build sample_leaves show ?thesis by blast
qed




text \<open>
  The layout part of claim C4 for a header in which no entry is named \<open>__proto__\<close>: the
  leaves of the rebuilt header are those of the given header, in the order in which
  extraction visits them; an unpacked leaf is unchanged, a packed leaf has the running
  total of the bytes emitted before it as its offset, the length of its buffer as its
  size and the integrity record of that buffer; the chunks emitted are the buffers of
  the packed leaves in that order.
\<close>

theorem rebuild_layout_wf:
  assumes "rebuildNode rt fm hdr [] \<lparr>chunks = [], runningOffset = 0\<rparr> = Inr (h', st')"
      and "files_wf hdr"
  shows "leaf_entries h' = relaid rt fm (leaf_entries hdr) 0 \<and>
         chunks st' = packed_data fm (leaf_entries hdr) \<and>
         runningOffset st' = length (concat (packed_data fm (leaf_entries hdr)))"
  using assms by (rule rebuild_layout)

theorem rebuild_layout_wf_witness:
  "leaf_entries sample_rebuilt_header = relaid ref_runtime sample_map (leaf_entries sample_header) 0 \<and>
   packed_data sample_map (leaf_entries sample_header) = [''abc'', ''de''] \<and>
   map fst (leaf_entries sample_header) = [''a.txt'', ''dir/b.bin'', ''dir/u'']"
proof -
  have l: "map fst (leaf_entries sample_header) = [''a.txt'', ''dir/b.bin'', ''dir/u'']"
    by (simp add: leaf_entries_def sample_header_def files_of_def walked_Cons walked_Nil
        is_dir_def join_path_def)
  from rebuild_layout_wf[OF sample_rebuild sample_wf] l show ?thesis by simp
qed


section \<open>The patch command on sample containers\<close>






























end
